theory Spec2Isabelle
  imports Main "HOL-Library.List_Lexorder" "HOL-Library.Option_ord"
begin

section \<open>Machine arithmetic\<close>

text \<open>
  The sources compute sizes and indices in \<^verbatim>\<open>uint32\<close> and memory budgets in
  \<^verbatim>\<open>uint64\<close>.  Both are modelled as natural numbers with the wrap-around
  written out at every operation that can overflow.
\<close>

definition u32 :: "nat \<Rightarrow> nat" where
  "u32 x = x mod 2 ^ 32"

definition u64 :: "nat \<Rightarrow> nat" where
  "u64 x = x mod 2 ^ 64"

text \<open>Unsigned subtraction \<^verbatim>\<open>a - b\<close> of two values of the given width.\<close>

definition sub_u32 :: "nat \<Rightarrow> nat \<Rightarrow> nat" where
  "sub_u32 a b = (a + (2 ^ 32 - b mod 2 ^ 32)) mod 2 ^ 32"

definition sub_u64 :: "nat \<Rightarrow> nat \<Rightarrow> nat" where
  "sub_u64 a b = (a + (2 ^ 64 - b mod 2 ^ 64)) mod 2 ^ 64"

section \<open>Construction parameters and status\<close>

text \<open>
  \<^verbatim>\<open>struct BWTParams\<close>: two \<^verbatim>\<open>uint64\<close> fields.  The default constructor
  multiplies three \<^verbatim>\<open>unsigned int\<close> literals and then one
  \<^verbatim>\<open>unsigned long long\<close> literal, left to right.
\<close>

record BWTParams =
  host_memory :: nat
  device_memory :: nat

definition BWTParams_default :: BWTParams where
  "BWTParams_default =
     \<lparr> host_memory = u64 (u32 (u32 (8 * 1024) * 1024) * 1024),
       device_memory = u64 (u32 (u32 (2 * 1024) * 1024) * 1024) \<rparr>"

text \<open>\<^verbatim>\<open>struct LargeBWTStatus\<close> with its anonymous enum and \<^verbatim>\<open>operator bool\<close>.\<close>

definition OK :: nat where
  "OK = 0"

definition LargeBucket :: nat where
  "LargeBucket = 1"

record LargeBWTStatus =
  code :: nat
  bucket_size :: nat
  bucket_index :: nat

text \<open>
  The default constructor initialises \<^verbatim>\<open>code\<close> only; the two other fields hold
  indeterminate values, which the model takes as arguments.
\<close>

definition LargeBWTStatus_init :: "nat \<Rightarrow> nat \<Rightarrow> LargeBWTStatus" where
  "LargeBWTStatus_init g_size g_index =
     \<lparr> code = OK, bucket_size = g_size, bucket_index = g_index \<rparr>"

definition status_bool :: "LargeBWTStatus \<Rightarrow> bool" where
  "status_bool s = (if code s = OK then True else False)"

text \<open>
  Exceptions and process exits of the string-set pipeline:
  \<^item> \<open>BucketOverflow i n\<close>: \<^verbatim>\<open>runtime_error("bucket %u contains %u strings: ...")\<close>;
  \<^item> \<open>SubbucketOverflow i n mb\<close>: the error thrown by the orchestrators once every
    bucketing width has failed, with the recommended device memory in MB;
  \<^item> \<open>ExitFailure\<close>: \<^verbatim>\<open>exit(1)\<close> after "buffer size exceeded".
\<close>

datatype exn =
    BucketOverflow nat nat
  | SubbucketOverflow nat nat nat
  | ExitFailure

section \<open>Budget derivation of \<^verbatim>\<open>LargeBWTSkeleton::enact\<close>\<close>

text \<open>
  \<^verbatim>\<open>params ? (params->host_memory - (128u*1024u*1024u)) / 8u : 512*1024*1024\<close>,
  stored in a \<^verbatim>\<open>const uint32\<close>, and
  \<^verbatim>\<open>params ? params->device_memory / 32 : 32*1024*1024\<close>, stored in a
  \<^verbatim>\<open>uint32\<close>.  The conditional expressions have type \<^verbatim>\<open>uint64\<close>.
\<close>

definition max_super_block_size_of :: "BWTParams option \<Rightarrow> nat" where
  "max_super_block_size_of params =
     (case params of
        Some p \<Rightarrow> u32 (sub_u64 (host_memory p) (u32 (u32 (128 * 1024) * 1024)) div 8)
      | None \<Rightarrow> u32 (512 * 1024 * 1024))"

definition max_block_size_of :: "BWTParams option \<Rightarrow> nat" where
  "max_block_size_of params =
     (case params of
        Some p \<Rightarrow> u32 (device_memory p div 32)
      | None \<Rightarrow> u32 (32 * 1024 * 1024))"

section \<open>Sub-bucket sizing\<close>

text \<open>
  The loop \<^verbatim>\<open>for (size = 0; end < bound && size + h[end] <= cap; ++end) size += h[end];\<close>
  which grows a block of buckets.  It occurs with \<open>bound = h.size()\<close> for
  super-blocks and with \<open>bound = bucket_end\<close> for sub-blocks.  The sum is a
  \<^verbatim>\<open>uint32\<close> sum.
\<close>

function grow_block :: "nat list \<Rightarrow> nat \<Rightarrow> nat \<Rightarrow> nat \<Rightarrow> nat \<Rightarrow> nat \<times> nat" where
  "grow_block h bound cap e sz =
     (if e < bound \<and> u32 (sz + h ! e) \<le> cap
      then grow_block h bound cap (e + 1) (u32 (sz + h ! e))
      else (e, sz))"
  by pat_completeness auto
termination
  by (relation "measure (\<lambda>(h, bound, cap, e, sz). bound - e)") auto

declare grow_block.simps [simp del]

lemma grow_block_ge: "e \<le> fst (grow_block h bound cap e sz)"
proof (induction h bound cap e sz rule: grow_block.induct)
  case (1 h bound cap e sz)
  show ?case
  proof (cases "e < bound \<and> u32 (sz + h ! e) \<le> cap")
    case True
    with "1.IH" have "e + 1 \<le> fst (grow_block h bound cap (e + 1) (u32 (sz + h ! e)))"
      by simp
    with True show ?thesis
      by (subst grow_block.simps) simp
  next
    case False
    then show ?thesis
      by (subst grow_block.simps) auto
  qed
qed

lemma grow_block_le: "fst (grow_block h bound cap e sz) \<le> max e bound"
proof (induction h bound cap e sz rule: grow_block.induct)
  case (1 h bound cap e sz)
  show ?case
  proof (cases "e < bound \<and> u32 (sz + h ! e) \<le> cap")
    case True
    with "1.IH" have "fst (grow_block h bound cap (e + 1) (u32 (sz + h ! e))) \<le> max (e + 1) bound"
      by simp
    with True show ?thesis
      by (subst grow_block.simps) auto
  next
    case False
    then show ?thesis
      by (subst grow_block.simps) auto
  qed
qed

text \<open>
  The scan of one super-block in \<^verbatim>\<open>max_subbucket_size\<close>: only buckets whose
  trailing dollar field is saturated (\<^verbatim>\<open>(subbucket & DOLLAR_MASK) == DOLLAR_MASK\<close>),
  that is, the buckets that are not short-string buckets, are tracked.
\<close>

definition DOLLAR_MASK_of :: "nat \<Rightarrow> nat" where
  "DOLLAR_MASK_of dollar_bits = u32 (sub_u32 (u32 (push_bit dollar_bits 1)) 1)"

definition track_subbucket :: "nat list \<Rightarrow> nat \<Rightarrow> nat \<times> nat \<Rightarrow> nat \<Rightarrow> nat \<times> nat" where
  "track_subbucket h dmask acc subbucket =
     (if and subbucket dmask = dmask
      then (if fst acc < h ! subbucket then (h ! subbucket, subbucket) else acc)
      else acc)"

function max_subbucket_loop ::
  "nat list \<Rightarrow> nat \<Rightarrow> nat \<Rightarrow> nat \<Rightarrow> nat \<times> nat \<Rightarrow> exn + (nat \<times> nat)" where
  "max_subbucket_loop h max_super dmask bucket_begin acc =
     (if bucket_begin < length h
      then (let bucket_end = fst (grow_block h (length h) max_super bucket_begin 0)
            in if bucket_end = bucket_begin
               then Inl (BucketOverflow bucket_begin (h ! bucket_begin))
               else max_subbucket_loop h max_super dmask bucket_end
                      (foldl (track_subbucket h dmask) acc [bucket_begin ..< bucket_end]))
      else Inr acc)"
  by pat_completeness auto
termination
proof (relation "measure (\<lambda>(h, max_super, dmask, bucket_begin, acc). length h - bucket_begin)")
  show "wf (measure (\<lambda>(h, max_super, dmask, bucket_begin, acc). length h - bucket_begin))"
    by simp
next
  fix h :: "nat list" and max_super dmask bucket_begin :: nat and acc :: "nat \<times> nat" and x :: nat
  assume a: "bucket_begin < length h"
    and x: "x = fst (grow_block h (length h) max_super bucket_begin 0)"
    and n: "x \<noteq> bucket_begin"
  have "x \<le> max bucket_begin (length h)" and "bucket_begin \<le> x"
    unfolding x by (rule grow_block_le, rule grow_block_ge)
  with a n show "((h, max_super, dmask, x, foldl (track_subbucket h dmask) acc [bucket_begin..<x]),
                 (h, max_super, dmask, bucket_begin, acc))
                \<in> measure (\<lambda>(h, max_super, dmask, bucket_begin, acc). length h - bucket_begin)"
    by simp
qed

declare max_subbucket_loop.simps [simp del]

text \<open>
  \<^verbatim>\<open>max_subbucket_size(h_buckets, max_super_block_size, limit, &status)\<close>:
  returns the maximum and the updated status, or throws.
\<close>

definition max_subbucket_size ::
  "nat \<Rightarrow> nat list \<Rightarrow> nat \<Rightarrow> nat \<Rightarrow> LargeBWTStatus \<Rightarrow> exn + (nat \<times> LargeBWTStatus)" where
  "max_subbucket_size dollar_bits h_buckets max_super limit status =
     (case max_subbucket_loop h_buckets max_super (DOLLAR_MASK_of dollar_bits) 0 (0, 0) of
        Inl e \<Rightarrow> Inl e
      | Inr (max_size, max_index) \<Rightarrow>
          Inr (max_size,
               if max_size > limit
               then status \<lparr> code := LargeBucket, bucket_size := max_size, bucket_index := max_index \<rparr>
               else status))"


section \<open>The string-set pipeline\<close>

type_synonym sym = nat
type_synonym string_set = "sym list list"

text \<open>
  Observable steps of \<^verbatim>\<open>LargeBWTSkeleton::enact\<close>, in program order:
  \<^item> \<open>DollarEmit block_begin block_end n_suffixes symbols\<close>: one iteration of the
    dollar loop, \<^verbatim>\<open>dollar_bwt(block_begin, block_end, ...)\<close> followed by
    \<^verbatim>\<open>output.process(n_suffixes, ...)\<close> on those symbols;
  \<^item> \<open>CountChunk chunk_begin chunk_end\<close>: \<^verbatim>\<open>bucketer.count\<close> on one chunk;
  \<^item> \<open>CollectChunk bucket_begin bucket_end chunk_begin chunk_end\<close>:
    \<^verbatim>\<open>bucketer.collect\<close> on one chunk;
  \<^item> \<open>DirectEmit subbucket block_begin block_end\<close>: one block of an over-sized
    bucket, \<^verbatim>\<open>string_set_handler.bwt\<close> with no sorting index followed by
    \<^verbatim>\<open>output.process\<close>; the sorter is not called;
  \<^item> \<open>SortEmit subbucket_begin subbucket_end n_suffixes\<close>:
    \<^verbatim>\<open>string_sorter.sort\<close> on the suffixes of the buckets in the range,
    followed by \<^verbatim>\<open>string_set_handler.bwt\<close> and \<^verbatim>\<open>output.process\<close>.
\<close>

datatype event =
    DollarEmit nat nat nat "sym list"
  | CountChunk nat nat
  | CollectChunk nat nat nat nat
  | DirectEmit nat nat nat
  | SortEmit nat nat nat

text \<open>
  Modelled from the spec: \<^verbatim>\<open>string_set_handler.dollar_bwt\<close> is declared in
  \<^verbatim>\<open>sufsort_priv.h\<close>, which is not among the sources.  The spec (4.7, step 1):
  for string \<open>k\<close>, the symbol is the last symbol of string \<open>k\<close>, the predecessor
  of that string's dollar.
\<close>

definition dollar_bwt :: "string_set \<Rightarrow> nat \<Rightarrow> nat \<Rightarrow> sym list" where
  "dollar_bwt S block_begin block_end =
     map last (take (block_end - block_begin) (drop block_begin S))"

text \<open>
  The dollar loop of \<^verbatim>\<open>enact\<close>:
  \<^verbatim>\<open>for (uint32 block_begin = 0; block_begin < N; block_begin += block_size)\<close>.
  With \<open>block_size = 0\<close> the loop never ends, hence the option type.
\<close>

partial_function (option) dollar_loop ::
  "string_set \<Rightarrow> nat \<Rightarrow> nat \<Rightarrow> nat \<Rightarrow> event list \<Rightarrow> event list option" where
  "dollar_loop S N block_size block_begin evs =
     (if block_begin < N
      then dollar_loop S N block_size (u32 (block_begin + block_size))
             (evs @ [DollarEmit block_begin (min (u32 (block_begin + block_size)) N)
                       (sub_u32 (min (u32 (block_begin + block_size)) N) block_begin)
                       (dollar_bwt S block_begin (min (u32 (block_begin + block_size)) N))])
      else Some evs)"

text \<open>
  The bucketer (\<^verbatim>\<open>priv::SetSuffixBucketer\<close>) and the chunk loader are not among the
  sources.  The model takes what \<^verbatim>\<open>enact\<close> reads from the bucketer as
  parameters: the per-chunk bucket counters left in \<^verbatim>\<open>bucketer.d_buckets\<close> by
  \<^verbatim>\<open>count\<close>, and the number of suffixes returned by \<^verbatim>\<open>collect\<close>.
\<close>

record bucketer =
  count_buckets :: "string_set \<Rightarrow> nat list"
  collect_n :: "string_set \<Rightarrow> nat \<Rightarrow> nat \<Rightarrow> nat list \<Rightarrow> nat"

definition load_chunk :: "string_set \<Rightarrow> nat \<Rightarrow> nat \<Rightarrow> string_set" where
  "load_chunk S chunk_begin chunk_end = take (chunk_end - chunk_begin) (drop chunk_begin S)"

definition chunk_M :: nat where
  "chunk_M = u32 (128 * 1024)"

definition chunk_begin_of :: "nat \<Rightarrow> nat" where
  "chunk_begin_of chunk_id = u32 (chunk_id * chunk_M)"

definition chunk_end_of :: "nat \<Rightarrow> nat \<Rightarrow> nat" where
  "chunk_end_of N chunk_id = min (u32 (chunk_begin_of chunk_id + chunk_M)) N"

definition n_chunks_of :: "nat \<Rightarrow> nat" where
  "n_chunks_of N = u32 (sub_u32 (u32 (N + chunk_M)) 1) div chunk_M"

text \<open>
  \<^verbatim>\<open>thrust::transform(bucketer.d_buckets.begin(), bucketer.d_buckets.end(),
  d_buckets.begin(), d_buckets.begin(), thrust::plus<uint32>())\<close>.
\<close>

definition merge_buckets :: "nat list \<Rightarrow> nat list \<Rightarrow> nat list" where
  "merge_buckets c d = map (\<lambda>i. if i < length c then u32 (c ! i + d ! i) else d ! i) [0 ..< length d]"

definition count_step ::
  "bucketer \<Rightarrow> string_set \<Rightarrow> nat \<Rightarrow> nat list \<times> event list \<Rightarrow> nat \<Rightarrow> nat list \<times> event list" where
  "count_step bk S N st chunk_id =
     (merge_buckets
        (count_buckets bk (load_chunk S (chunk_begin_of chunk_id) (chunk_end_of N chunk_id)))
        (fst st),
      snd st @ [CountChunk (chunk_begin_of chunk_id) (chunk_end_of N chunk_id)])"

definition count_pass ::
  "nat \<Rightarrow> bucketer \<Rightarrow> string_set \<Rightarrow> nat \<Rightarrow> event list \<Rightarrow> nat list \<times> event list" where
  "count_pass bucketing_bits bk S N evs =
     foldl (count_step bk S N) (replicate (2 ^ bucketing_bits) 0, evs) [0 ..< n_chunks_of N]"


lemma grow_block_gt:
  assumes "e < bound" and "u32 (sz + h ! e) \<le> cap"
  shows "e < fst (grow_block h bound cap e sz)"
proof -
  have "e + 1 \<le> fst (grow_block h bound cap (e + 1) (u32 (sz + h ! e)))"
    by (rule grow_block_ge)
  with assms show ?thesis
    by (subst grow_block.simps) simp
qed

text \<open>
  \<^verbatim>\<open>build_subbuckets\<close>: the inner loop over one super-block, then the loop over
  the super-blocks.  Both throw on a bucket they cannot place.
\<close>

function build_sub_loop ::
  "nat list \<Rightarrow> nat \<Rightarrow> nat \<Rightarrow> nat \<Rightarrow> nat \<Rightarrow> nat list \<Rightarrow> exn + nat list" where
  "build_sub_loop h max_block dmask bucket_end subbucket_begin h_sub =
     (if subbucket_begin < bucket_end
      then (if h ! subbucket_begin > max_block
            then (if and subbucket_begin dmask = dmask
                  then Inl (BucketOverflow subbucket_begin (h ! subbucket_begin))
                  else build_sub_loop h max_block dmask bucket_end (subbucket_begin + 1)
                         (h_sub[subbucket_begin := subbucket_begin]))
            else build_sub_loop h max_block dmask bucket_end
                   (fst (grow_block h bucket_end max_block subbucket_begin 0))
                   (foldl (\<lambda>hs i. hs[i := subbucket_begin]) h_sub
                      [subbucket_begin ..< fst (grow_block h bucket_end max_block subbucket_begin 0)]))
      else Inr h_sub)"
  by pat_completeness auto
termination
proof (relation "measure (\<lambda>(h, max_block, dmask, bucket_end, subbucket_begin, h_sub).
                            bucket_end - subbucket_begin)")
  fix h :: "nat list" and max_block dmask bucket_end subbucket_begin :: nat and h_sub :: "nat list"
  assume a: "subbucket_begin < bucket_end" and b: "\<not> max_block < h ! subbucket_begin"
  have "u32 (0 + h ! subbucket_begin) \<le> max_block"
    using b by (simp add: u32_def)
  from grow_block_gt [OF a this]
  show "((h, max_block, dmask, bucket_end, fst (grow_block h bucket_end max_block subbucket_begin 0),
          foldl (\<lambda>hs i. hs[i := subbucket_begin]) h_sub
            [subbucket_begin..<fst (grow_block h bucket_end max_block subbucket_begin 0)]),
         (h, max_block, dmask, bucket_end, subbucket_begin, h_sub))
        \<in> measure (\<lambda>(h, max_block, dmask, bucket_end, subbucket_begin, h_sub).
                            bucket_end - subbucket_begin)"
    using a by simp
qed auto

declare build_sub_loop.simps [simp del]

function build_subbuckets_loop ::
  "nat list \<Rightarrow> nat \<Rightarrow> nat \<Rightarrow> nat \<Rightarrow> nat \<Rightarrow> nat list \<Rightarrow> exn + nat list" where
  "build_subbuckets_loop h max_super max_block dmask bucket_begin h_sub =
     (if bucket_begin < length h
      then (let bucket_end = fst (grow_block h (length h) max_super bucket_begin 0)
            in if bucket_end = bucket_begin
               then Inl (BucketOverflow bucket_begin (h ! bucket_begin))
               else (case build_sub_loop h max_block dmask bucket_end bucket_begin h_sub of
                       Inl e \<Rightarrow> Inl e
                     | Inr h_sub' \<Rightarrow>
                         build_subbuckets_loop h max_super max_block dmask bucket_end h_sub'))
      else Inr h_sub)"
  by pat_completeness auto
termination
proof (relation "measure (\<lambda>(h, max_super, max_block, dmask, bucket_begin, h_sub).
                            length h - bucket_begin)")
  fix h :: "nat list" and max_super max_block dmask bucket_begin x :: nat
    and h_sub h_sub' :: "nat list"
  assume a: "bucket_begin < length h"
    and x: "x = fst (grow_block h (length h) max_super bucket_begin 0)"
    and n: "x \<noteq> bucket_begin"
  have "x \<le> max bucket_begin (length h)" and "bucket_begin \<le> x"
    unfolding x by (rule grow_block_le, rule grow_block_ge)
  with a n show "((h, max_super, max_block, dmask, x, h_sub'),
                  (h, max_super, max_block, dmask, bucket_begin, h_sub))
                 \<in> measure (\<lambda>(h, max_super, max_block, dmask, bucket_begin, h_sub).
                            length h - bucket_begin)"
    by simp
qed auto

declare build_subbuckets_loop.simps [simp del]

definition build_subbuckets ::
  "nat \<Rightarrow> nat list \<Rightarrow> nat list \<Rightarrow> nat \<Rightarrow> nat \<Rightarrow> exn + nat list" where
  "build_subbuckets dollar_bits h_buckets h_subbuckets max_super max_block =
     build_subbuckets_loop h_buckets max_super max_block (DOLLAR_MASK_of dollar_bits) 0 h_subbuckets"


text \<open>
  The collecting loop over the chunks of one super-block.  \<^verbatim>\<open>exit(1)\<close> is taken
  when \<^verbatim>\<open>suffix_count + n_collected > max_super_block_size\<close>.
\<close>

fun collect_pass ::
  "bucketer \<Rightarrow> string_set \<Rightarrow> nat \<Rightarrow> nat \<Rightarrow> nat list \<Rightarrow> nat \<Rightarrow> nat \<Rightarrow> nat list \<Rightarrow> nat \<Rightarrow>
   event list \<Rightarrow> event list \<times> exn option" where
  "collect_pass bk S N max_super h_sub bucket_begin bucket_end [] suffix_count evs = (evs, None)"
| "collect_pass bk S N max_super h_sub bucket_begin bucket_end (chunk_id # ids) suffix_count evs =
     (let n_collected =
            u32 (collect_n bk (load_chunk S (chunk_begin_of chunk_id) (chunk_end_of N chunk_id))
                   bucket_begin bucket_end h_sub);
          evs' = evs @ [CollectChunk bucket_begin bucket_end
                          (chunk_begin_of chunk_id) (chunk_end_of N chunk_id)]
      in if u32 (suffix_count + n_collected) > max_super
         then (evs', Some ExitFailure)
         else collect_pass bk S N max_super h_sub bucket_begin bucket_end ids
                (u32 (suffix_count + n_collected)) evs')"

text \<open>
  The loop chopping an over-sized short-string bucket in blocks:
  \<^verbatim>\<open>for (uint32 block_begin = 0; block_begin < subbucket_size; block_begin += max_block_size)\<close>.
\<close>

partial_function (option) direct_loop ::
  "nat \<Rightarrow> nat \<Rightarrow> nat \<Rightarrow> nat \<Rightarrow> event list \<Rightarrow> event list option" where
  "direct_loop max_block subbucket subbucket_size block_begin evs =
     (if block_begin < subbucket_size
      then direct_loop max_block subbucket subbucket_size (u32 (block_begin + max_block))
             (evs @ [DirectEmit subbucket block_begin
                       (min (u32 (block_begin + max_block)) subbucket_size)])
      else Some evs)"

text \<open>The loop over the sub-buckets of one super-block, lines 850 to 1012.\<close>

function subbucket_loop ::
  "nat list \<Rightarrow> nat \<Rightarrow> nat \<Rightarrow> nat \<Rightarrow> nat \<Rightarrow> event list \<Rightarrow> (event list \<times> exn option) option" where
  "subbucket_loop h max_block dmask bucket_end subbucket_begin evs =
     (if subbucket_begin < bucket_end
      then (if h ! subbucket_begin > max_block
            then (if and subbucket_begin dmask = dmask
                  then Some (evs, Some (BucketOverflow subbucket_begin (h ! subbucket_begin)))
                  else (case direct_loop max_block subbucket_begin (h ! subbucket_begin) 0 evs of
                          None \<Rightarrow> None
                        | Some evs' \<Rightarrow>
                            subbucket_loop h max_block dmask bucket_end (subbucket_begin + 1) evs'))
            else (if snd (grow_block h bucket_end max_block subbucket_begin 0) = 0
                  then subbucket_loop h max_block dmask bucket_end
                         (fst (grow_block h bucket_end max_block subbucket_begin 0)) evs
                  else subbucket_loop h max_block dmask bucket_end
                         (fst (grow_block h bucket_end max_block subbucket_begin 0))
                         (evs @ [SortEmit subbucket_begin
                                   (fst (grow_block h bucket_end max_block subbucket_begin 0))
                                   (snd (grow_block h bucket_end max_block subbucket_begin 0))])))
      else Some (evs, None))"
  by pat_completeness auto
termination
proof (relation "measure (\<lambda>(h, max_block, dmask, bucket_end, subbucket_begin, evs).
                            bucket_end - subbucket_begin)")
  fix h :: "nat list" and max_block dmask bucket_end subbucket_begin :: nat
  assume a: "subbucket_begin < bucket_end" and b: "\<not> max_block < h ! subbucket_begin"
  have "u32 (0 + h ! subbucket_begin) \<le> max_block"
    using b by (simp add: u32_def)
  from grow_block_gt [OF a this]
  have "bucket_end - fst (grow_block h bucket_end max_block subbucket_begin 0)
          < bucket_end - subbucket_begin"
    using a by simp
  then show "\<And>evs. ((h, max_block, dmask, bucket_end,
          fst (grow_block h bucket_end max_block subbucket_begin 0), evs),
         (h, max_block, dmask, bucket_end, subbucket_begin, evs))
        \<in> measure (\<lambda>(h, max_block, dmask, bucket_end, subbucket_begin, evs).
                            bucket_end - subbucket_begin)"
    and "\<And>evs. ((h, max_block, dmask, bucket_end,
          fst (grow_block h bucket_end max_block subbucket_begin 0),
          evs @ [SortEmit subbucket_begin
                   (fst (grow_block h bucket_end max_block subbucket_begin 0))
                   (snd (grow_block h bucket_end max_block subbucket_begin 0))]),
         (h, max_block, dmask, bucket_end, subbucket_begin, evs))
        \<in> measure (\<lambda>(h, max_block, dmask, bucket_end, subbucket_begin, evs).
                            bucket_end - subbucket_begin)"
    by simp_all
qed auto

declare subbucket_loop.simps [simp del]

text \<open>
  The loop over the super-blocks, lines 755 to 1024.  Unlike
  \<^verbatim>\<open>max_subbucket_size\<close> it has no check for an empty super-block.
\<close>

partial_function (option) super_block_loop ::
  "bucketer \<Rightarrow> string_set \<Rightarrow> nat \<Rightarrow> nat list \<Rightarrow> nat \<Rightarrow> nat \<Rightarrow> nat \<Rightarrow> nat list \<Rightarrow> nat \<Rightarrow>
   event list \<Rightarrow> (event list \<times> exn option) option" where
  "super_block_loop bk S N h max_super max_block dmask h_sub bucket_begin evs =
     (if bucket_begin < length h
      then (case collect_pass bk S N max_super h_sub bucket_begin
                   (fst (grow_block h (length h) max_super bucket_begin 0))
                   [0 ..< n_chunks_of N] 0 evs of
              (evs', Some e) \<Rightarrow> Some (evs', Some e)
            | (evs', None) \<Rightarrow>
                (case subbucket_loop h max_block dmask
                        (fst (grow_block h (length h) max_super bucket_begin 0))
                        bucket_begin evs' of
                   None \<Rightarrow> None
                 | Some (evs'', Some e) \<Rightarrow> Some (evs'', Some e)
                 | Some (evs'', None) \<Rightarrow>
                     super_block_loop bk S N h max_super max_block dmask h_sub
                       (fst (grow_block h (length h) max_super bucket_begin 0)) evs''))
      else Some (evs, None))"


section \<open>\<^verbatim>\<open>LargeBWTSkeleton::enact\<close>\<close>

text \<open>\<^verbatim>\<open>DOLLAR_BITS = WORD_BITS <= 32 ? 4 : 5\<close> of both configurations.\<close>

definition DOLLAR_BITS_of :: "nat \<Rightarrow> nat" where
  "DOLLAR_BITS_of word_bits = (if word_bits \<le> 32 then 4 else 5)"

definition optimal_block_size :: nat where
  "optimal_block_size = u32 (32 * 1024 * 1024)"

text \<open>
  The result is \<open>None\<close> when a loop of the function never ends; otherwise the steps
  taken and either the exception thrown or the status returned.  Failed allocations
  are not modelled.
\<close>

definition enact ::
  "nat \<Rightarrow> nat \<Rightarrow> bucketer \<Rightarrow> string_set \<Rightarrow> BWTParams option \<Rightarrow> nat \<times> nat \<Rightarrow>
   (event list \<times> (exn + LargeBWTStatus)) option" where
  "enact bucketing_bits dollar_bits bk S params uninit =
     (let N = u32 (length S);
          status = LargeBWTStatus_init (fst uninit) (snd uninit);
          max_super = max_super_block_size_of params;
          max_block = max_block_size_of params
      in case dollar_loop S N (max_block div 4) 0 [] of
           None \<Rightarrow> None
         | Some evs1 \<Rightarrow>
             (let counted = count_pass bucketing_bits bk S N evs1
              in case max_subbucket_size dollar_bits (fst counted) max_super max_block status of
                   Inl e \<Rightarrow> Some (snd counted, Inl e)
                 | Inr (largest, status') \<Rightarrow>
                     if \<not> status_bool status' then Some (snd counted, Inr status')
                     else
                       (let max_block' = (if largest \<le> optimal_block_size
                                          then optimal_block_size else max_block)
                        in case build_subbuckets dollar_bits (fst counted)
                                  (replicate (length (fst counted)) 0) max_super max_block' of
                             Inl e \<Rightarrow> Some (snd counted, Inl e)
                           | Inr h_sub \<Rightarrow>
                               (case super_block_loop bk S N (fst counted) max_super max_block'
                                       (DOLLAR_MASK_of dollar_bits) h_sub 0 (snd counted) of
                                  None \<Rightarrow> None
                                | Some (evs3, Some e) \<Rightarrow> Some (evs3, Inl e)
                                | Some (evs3, None) \<Rightarrow> Some (evs3, Inr status')))))"

section \<open>The string-set orchestrators\<close>

text \<open>
  \<^verbatim>\<open>util::divide_ri\<close> is not among the sources; it is the library's integer
  division rounding up, here on \<^verbatim>\<open>uint32\<close>.  The message of the final error
  recommends \<^verbatim>\<open>divide_ri(bucket_size, 1024u*1024u)*32u\<close> MB.
\<close>

definition divide_ri :: "nat \<Rightarrow> nat \<Rightarrow> nat" where
  "divide_ri x y = u32 (x + sub_u32 y 1) div y"

definition recommended_MB :: "nat \<Rightarrow> nat" where
  "recommended_MB sz = u32 (divide_ri sz (u32 (1024 * 1024)) * 32)"

text \<open>
  \<^verbatim>\<open>cuda::bwt\<close> on a string set (device configurations) and \<^verbatim>\<open>large_bwt\<close>
  (host configurations).  Each \<^verbatim>\<open>if (status = enact(...)) return;\<close> assigns the
  status and tests its conversion to \<^verbatim>\<open>bool\<close>.  The result lists the bucketing
  widths for which \<^verbatim>\<open>enact\<close> was called, the steps of these calls, which
  accumulate in the one output handler, and the exception thrown, if any.
\<close>

definition cuda_bwt_set ::
  "(nat \<Rightarrow> bucketer) \<Rightarrow> nat \<Rightarrow> string_set \<Rightarrow> BWTParams option \<Rightarrow> (nat \<Rightarrow> nat \<times> nat) \<Rightarrow>
   (nat list \<times> event list \<times> (exn + unit)) option" where
  "cuda_bwt_set bks word_bits S params uninit =
     (case enact 16 (DOLLAR_BITS_of word_bits) (bks 16) S params (uninit 16) of
        None \<Rightarrow> None
      | Some (evs16, Inl e) \<Rightarrow> Some ([16], evs16, Inl e)
      | Some (evs16, Inr status16) \<Rightarrow>
          if status_bool status16 then Some ([16], evs16, Inr ())
          else
            (case enact 20 (DOLLAR_BITS_of word_bits) (bks 20) S params (uninit 20) of
               None \<Rightarrow> None
             | Some (evs20, Inl e) \<Rightarrow> Some ([16, 20], evs16 @ evs20, Inl e)
             | Some (evs20, Inr status20) \<Rightarrow>
                 if status_bool status20 then Some ([16, 20], evs16 @ evs20, Inr ())
                 else
                   (case enact 24 (DOLLAR_BITS_of word_bits) (bks 24) S params (uninit 24) of
                      None \<Rightarrow> None
                    | Some (evs24, Inl e) \<Rightarrow> Some ([16, 20, 24], evs16 @ evs20 @ evs24, Inl e)
                    | Some (evs24, Inr status24) \<Rightarrow>
                        if status_bool status24 then Some ([16, 20, 24], evs16 @ evs20 @ evs24, Inr ())
                        else if code status24 = LargeBucket
                        then Some ([16, 20, 24], evs16 @ evs20 @ evs24,
                                   Inl (SubbucketOverflow (bucket_index status24) (bucket_size status24)
                                          (recommended_MB (bucket_size status24))))
                        else Some ([16, 20, 24], evs16 @ evs20 @ evs24, Inr ()))))"

definition large_bwt ::
  "(nat \<Rightarrow> bucketer) \<Rightarrow> nat \<Rightarrow> string_set \<Rightarrow> BWTParams option \<Rightarrow> (nat \<Rightarrow> nat \<times> nat) \<Rightarrow>
   (nat list \<times> event list \<times> (exn + unit)) option" where
  "large_bwt bks word_bits S params uninit =
     (case enact 16 (DOLLAR_BITS_of word_bits) (bks 16) S params (uninit 16) of
        None \<Rightarrow> None
      | Some (evs16, Inl e) \<Rightarrow> Some ([16], evs16, Inl e)
      | Some (evs16, Inr status16) \<Rightarrow>
          if status_bool status16 then Some ([16], evs16, Inr ())
          else
            (case enact 20 (DOLLAR_BITS_of word_bits) (bks 20) S params (uninit 20) of
               None \<Rightarrow> None
             | Some (evs20, Inl e) \<Rightarrow> Some ([16, 20], evs16 @ evs20, Inl e)
             | Some (evs20, Inr status20) \<Rightarrow>
                 if status_bool status20 then Some ([16, 20], evs16 @ evs20, Inr ())
                 else
                   (case enact 24 (DOLLAR_BITS_of word_bits) (bks 24) S params (uninit 24) of
                      None \<Rightarrow> None
                    | Some (evs24, Inl e) \<Rightarrow> Some ([16, 20, 24], evs16 @ evs20 @ evs24, Inl e)
                    | Some (evs24, Inr status24) \<Rightarrow>
                        if status_bool status24 then Some ([16, 20, 24], evs16 @ evs20 @ evs24, Inr ())
                        else if code status24 = LargeBucket
                        then Some ([16, 20, 24], evs16 @ evs20 @ evs24,
                                   Inl (SubbucketOverflow (bucket_index status24) (bucket_size status24)
                                          (recommended_MB (bucket_size status24))))
                        else Some ([16, 20, 24], evs16 @ evs20 @ evs24, Inr ()))))"


section \<open>Single-string suffix sorting and BWT\<close>

text \<open>
  Suffixes are compared with the implicit end-marker in place: the string is followed
  by \<open>None\<close>, the dollar, which is smaller than every symbol \<open>Some c\<close>.
\<close>

definition with_dollar :: "sym list \<Rightarrow> sym option list" where
  "with_dollar T = map Some T @ [None]"

definition suffix :: "sym list \<Rightarrow> nat \<Rightarrow> sym option list" where
  "suffix T p = drop p (with_dollar T)"

text \<open>
  Modelled from the spec: \<^verbatim>\<open>priv::string_suffix_less\<close> is declared in
  \<^verbatim>\<open>sufsort_priv.h\<close>, which is not among the sources.  The spec (4.3, and the
  comment in \<^verbatim>\<open>find_primary\<close>): suffixes are compared lexicographically, with
  the dollar smaller than any symbol.
\<close>

definition string_suffix_less :: "nat \<Rightarrow> sym list \<Rightarrow> nat \<Rightarrow> nat \<Rightarrow> bool" where
  "string_suffix_less string_len string p q =
     (suffix (take string_len string) p < suffix (take string_len string) q)"

text \<open>
  \<^verbatim>\<open>cuda::find_primary\<close>: a \<^verbatim>\<open>transform_reduce\<close> with \<^verbatim>\<open>plus<uint32>\<close>
  over the counting range from 1 to \<open>string_len\<close>, plus one.  The range is not
  a range when \<open>string_len = 0\<close>.
\<close>

definition find_primary :: "nat \<Rightarrow> sym list \<Rightarrow> nat option" where
  "find_primary string_len string =
     (if string_len = 0 then None
      else Some (u32 (foldl (\<lambda>acc p. u32 (acc + (if string_suffix_less string_len string p 0
                                                     then 1 else 0)))
                        0 [1 ..< string_len] + 1)))"

text \<open>
  Modelled from the spec: \<^verbatim>\<open>PrefixDoublingSufSort::sort\<close> is declared in
  \<^verbatim>\<open>prefix_doubling_sufsort.h\<close>, which is not among the sources.  The
  documentation of \<^verbatim>\<open>suffix_sort\<close>: it sorts all the suffixes of the given
  string.  The sorted positions are written from the output iterator onwards.
\<close>

definition PrefixDoublingSufSort_sort :: "nat \<Rightarrow> sym list \<Rightarrow> (nat \<Rightarrow> nat) \<Rightarrow> (nat \<Rightarrow> nat)" where
  "PrefixDoublingSufSort_sort string_len string out =
     (\<lambda>j. if j < string_len
          then sort_key (suffix (take string_len string)) [0 ..< string_len] ! j
          else out j)"

text \<open>
  \<^verbatim>\<open>cuda::suffix_sort\<close> on a single string: the sorter writes through
  \<^verbatim>\<open>output + 1u\<close>, then \<^verbatim>\<open>output[0] = string_len\<close>.  The output iterator
  is a store from positions to values.
\<close>

definition suffix_sort :: "nat \<Rightarrow> sym list \<Rightarrow> (nat \<Rightarrow> nat) \<Rightarrow> (nat \<Rightarrow> nat)" where
  "suffix_sort string_len string out =
     (let shifted = PrefixDoublingSufSort_sort string_len string (\<lambda>j. out (j + 1));
          out1 = (\<lambda>j. if j = 0 then out 0 else shifted (j - 1))
      in out1 (0 := string_len))"

text \<open>
  The output of \<^verbatim>\<open>cuda::bwt\<close>: the cells behind the output iterator, and the
  copies made into them so far (offset and symbols), oldest first.
\<close>

record output_store =
  cells :: "nat \<Rightarrow> sym"
  writes :: "(nat \<times> sym list) list"

text \<open>
  \<^verbatim>\<open>priv::device_copy(n, input, output, offset)\<close> is not among the sources; by
  its uses it copies \<open>n\<close> items of the input to the output from \<open>offset\<close> on.
\<close>

definition device_copy :: "nat \<Rightarrow> (nat \<Rightarrow> sym) \<Rightarrow> output_store \<Rightarrow> nat \<Rightarrow> output_store" where
  "device_copy n input out offset =
     \<lparr> cells = (\<lambda>j. if offset \<le> j \<and> j < offset + n then input (j - offset) else cells out j),
       writes = writes out @ [(offset, map input [0 ..< n])] \<rparr>"

text \<open>
  Modelled from the spec: \<^verbatim>\<open>priv::string_bwt_functor\<close> is not among the sources.
  The spec (4.5, step 4c): \<open>bwt[slot] = (p == 0) ? DOLLAR : T[p - 1]\<close>; the handler
  below looks for the dollar as the value 255.
\<close>

definition string_bwt_functor :: "nat \<Rightarrow> sym list \<Rightarrow> nat \<Rightarrow> sym" where
  "string_bwt_functor string_len string p = (if p = 0 then 255 else string ! (p - 1))"

text \<open>\<^verbatim>\<open>struct StringBWTHandler\<close>; \<open>primary\<close> and \<open>n_output\<close> are \<^verbatim>\<open>uint32\<close>.\<close>

record StringBWTHandler =
  primary :: nat
  n_output :: nat
  output_iter :: output_store

definition NULL_PRIMARY :: nat where
  "NULL_PRIMARY = sub_u32 0 1"

definition process_batch :: "nat \<Rightarrow> sym list \<Rightarrow> StringBWTHandler \<Rightarrow> nat list \<Rightarrow> StringBWTHandler" where
  "process_batch string_len string h d_suffixes =
     (let n_suffixes = length d_suffixes;
          d_block_bwt = map (string_bwt_functor string_len string) d_suffixes;
          block_primary = length (takeWhile (\<lambda>c. c \<noteq> 255) d_block_bwt)
      in h \<lparr> primary := (if block_primary < n_suffixes
                          then u32 (u32 (n_output h + block_primary) + 1)
                          else primary h),
             output_iter := device_copy n_suffixes (\<lambda>i. d_block_bwt ! i) (output_iter h) (u32 (n_output h + 1)),
             n_output := u32 (n_output h + n_suffixes) \<rparr>)"

text \<open>
  Modelled from the spec: \<^verbatim>\<open>blockwise_suffix_sort\<close> and the difference cover
  sampler are declared in \<^verbatim>\<open>blockwise_sufsort.h\<close> and \<^verbatim>\<open>dcs.h\<close>, which are
  not among the sources.  The spec (4.5, steps 3 and 4): the suffix positions are
  partitioned into buckets by their leading radix; for each bucket, in output order,
  the positions of the bucket are collected, sorted, and handed to the handler as one
  batch.  The radix is a parameter.  With a sampler at hand no suffix is delayed, so
  \<^verbatim>\<open>process_scattered\<close> is not called.
\<close>

definition blockwise_suffix_sort ::
  "(nat \<Rightarrow> 'k::linorder) \<Rightarrow> nat \<Rightarrow> sym list \<Rightarrow> StringBWTHandler \<Rightarrow> StringBWTHandler" where
  "blockwise_suffix_sort radix string_len string h =
     foldl (\<lambda>h' b. process_batch string_len string h'
                     (sort_key (suffix (take string_len string))
                        (filter (\<lambda>p. radix p = b) [0 ..< string_len])))
       h (remdups (sort (map radix [0 ..< string_len])))"

text \<open>
  The index type of the string is a template parameter; \<open>iw\<close> is its width in bits.
\<close>

definition idx :: "nat \<Rightarrow> nat \<Rightarrow> nat" where
  "idx iw x = x mod 2 ^ iw"

definition sub_idx :: "nat \<Rightarrow> nat \<Rightarrow> nat \<Rightarrow> nat" where
  "sub_idx iw a b = (a + (2 ^ iw - b mod 2 ^ iw)) mod 2 ^ iw"

definition shift_block_size :: nat where
  "shift_block_size = u32 (32 * 1024 * 1024)"

text \<open>
  The loop shifting back all symbols following the primary, lines 320 to 337: each
  block is copied to the temporary buffer and from there to the output, one position
  to the left.
\<close>

partial_function (option) shift_loop ::
  "nat \<Rightarrow> nat \<Rightarrow> nat \<Rightarrow> output_store \<Rightarrow> output_store option" where
  "shift_loop iw string_len block_begin out =
     (if block_begin < string_len
      then shift_loop iw string_len (idx iw (block_begin + shift_block_size))
             (device_copy
                (sub_idx iw (min (idx iw (block_begin + shift_block_size)) string_len) block_begin)
                (\<lambda>i. map (\<lambda>k. cells out (block_begin + 1 + k))
                         [0 ..< sub_idx iw (min (idx iw (block_begin + shift_block_size)) string_len)
                                  block_begin] ! i)
                out block_begin)
      else Some out)"

datatype bwt_error = ReadOutOfRange

text \<open>
  \<^verbatim>\<open>cuda::bwt\<close> on a single string.  Building the sampler has no effect on the
  output.  The first copy reads \<^verbatim>\<open>string[string_len - 1]\<close>, which is outside the
  string when it is empty.
\<close>

definition cuda_bwt ::
  "nat \<Rightarrow> (nat \<Rightarrow> 'k::linorder) \<Rightarrow> nat \<Rightarrow> sym list \<Rightarrow> output_store \<Rightarrow>
   (bwt_error + nat \<times> output_store) option" where
  "cuda_bwt iw radix string_len string out =
     (if string_len = 0 then Some (Inl ReadOutOfRange)
      else
        (let out1 = device_copy 1 (\<lambda>i. string ! (string_len - 1 + i)) out 0;
             bwt_handler = blockwise_suffix_sort radix string_len string
                             \<lparr> primary = NULL_PRIMARY, n_output = 0, output_iter = out1 \<rparr>
         in case shift_loop iw string_len (idx iw (primary bwt_handler)) (output_iter bwt_handler) of
              None \<Rightarrow> None
            | Some out2 \<Rightarrow> Some (Inr (idx iw (primary bwt_handler), out2))))"

text \<open>
  The reference definition of the transform (glossary of the spec): sort all the
  rotations of the string and take the last column.
\<close>

definition rotations :: "'a list \<Rightarrow> 'a list list" where
  "rotations xs = map (\<lambda>i. rotate i xs) [0 ..< length xs]"

definition bwt_ref :: "'a::linorder list \<Rightarrow> 'a list" where
  "bwt_ref xs = map last (sort (rotations xs))"


section \<open>Observations on the steps\<close>

text \<open>The symbols a step of the dollar loop hands to the output handler.\<close>

fun event_symbols :: "event \<Rightarrow> sym list" where
  "event_symbols (DollarEmit b e n syms) = syms"
| "event_symbols _ = []"

fun is_dollar_emit :: "event \<Rightarrow> bool" where
  "is_dollar_emit (DollarEmit b e n syms) = True"
| "is_dollar_emit _ = False"

definition dollar_free :: "event list \<Rightarrow> bool" where
  "dollar_free evs = list_all (\<lambda>ev. \<not> is_dollar_emit ev) evs"

text \<open>
  The steps of a dollar loop started at string \<open>b\<close>: blocks of consecutive string
  indices, each block starting where the previous one ended, up to string \<open>N\<close>.
\<close>

fun dollar_chain :: "nat \<Rightarrow> nat \<Rightarrow> event list \<Rightarrow> bool" where
  "dollar_chain b N [] = (N \<le> b)"
| "dollar_chain b N (DollarEmit bb be n syms # rest) =
     (bb = b \<and> b < be \<and> be \<le> N \<and> n = be - bb \<and> dollar_chain be N rest)"
| "dollar_chain b N (_ # rest) = False"

text \<open>
  The routing of the buckets \<open>sb \<le> i < be\<close> of a super-block by the steps \<open>new\<close>:
  every step either sorts a range of buckets none of which exceeds the block size, or
  emits directly a block of a short-string bucket that exceeds it; every bucket that
  exceeds the block size is emitted directly, starting with its first block; every
  non-empty bucket within the block size lies in a sorted range.
\<close>

definition routed :: "nat list \<Rightarrow> nat \<Rightarrow> nat \<Rightarrow> nat \<Rightarrow> nat \<Rightarrow> event list \<Rightarrow> bool" where
  "routed h mb dmask sb be new \<longleftrightarrow>
     (\<forall>ev \<in> set new.
        (\<exists>b e n. ev = SortEmit b e n \<and> sb \<le> b \<and> b < e \<and> e \<le> be \<and> 0 < n \<and>
                  (\<forall>i. b \<le> i \<and> i < e \<longrightarrow> h ! i \<le> mb)) \<or>
        (\<exists>i b e. ev = DirectEmit i b e \<and> sb \<le> i \<and> i < be \<and> and i dmask \<noteq> dmask \<and>
                  mb < h ! i \<and> e - b \<le> mb)) \<and>
     (\<forall>i. sb \<le> i \<and> i < be \<and> mb < h ! i \<longrightarrow> DirectEmit i 0 (min mb (h ! i)) \<in> set new) \<and>
     (\<forall>i. sb \<le> i \<and> i < be \<and> 0 < h ! i \<and> h ! i \<le> mb \<longrightarrow>
          (\<exists>b e n. SortEmit b e n \<in> set new \<and> b \<le> i \<and> i < e))"

text \<open>The global bucket counters after the counting pass.\<close>

definition histogram :: "nat \<Rightarrow> bucketer \<Rightarrow> string_set \<Rightarrow> nat list" where
  "histogram bucketing_bits bk S = fst (count_pass bucketing_bits bk S (u32 (length S)) [])"



text \<open>
  A bucketer for examples: the counting of a chunk finds \<open>v\<close> suffixes in bucket
  \<open>i\<close> and none elsewhere; collecting returns no suffix.
\<close>

definition one_bucket :: "nat \<Rightarrow> nat \<Rightarrow> nat \<Rightarrow> bucketer" where
  "one_bucket bucketing_bits i v =
     \<lparr> count_buckets = (\<lambda>chunk. (replicate (2 ^ bucketing_bits) 0)[i := v]),
       collect_n = (\<lambda>chunk b e hs. 0) \<rparr>"

section \<open>Lemmas on the string-set pipeline\<close>

lemma u32_le: "u32 x \<le> x"
  by (simp add: u32_def)

lemma u32_id: "x < 2 ^ 32 \<Longrightarrow> u32 x = x"
  by (simp add: u32_def)

lemma foldl_track_snoc:
  "b \<le> e \<Longrightarrow> foldl (track_subbucket h dmask) acc [b ..< Suc e]
     = track_subbucket h dmask (foldl (track_subbucket h dmask) acc [b ..< e]) e"
  by simp

lemma foldl_track_inv:
  assumes "b \<le> e"
  shows "fst acc \<le> fst (foldl (track_subbucket h dmask) acc [b ..< e]) \<and>
         (\<forall>i. b \<le> i \<and> i < e \<and> and i dmask = dmask \<longrightarrow>
                h ! i \<le> fst (foldl (track_subbucket h dmask) acc [b ..< e])) \<and>
         (foldl (track_subbucket h dmask) acc [b ..< e] = acc \<or>
          (b \<le> snd (foldl (track_subbucket h dmask) acc [b ..< e]) \<and>
           snd (foldl (track_subbucket h dmask) acc [b ..< e]) < e \<and>
           and (snd (foldl (track_subbucket h dmask) acc [b ..< e])) dmask = dmask \<and>
           h ! snd (foldl (track_subbucket h dmask) acc [b ..< e])
             = fst (foldl (track_subbucket h dmask) acc [b ..< e]) \<and>
           fst acc < fst (foldl (track_subbucket h dmask) acc [b ..< e])))"
  using assms
proof (induction e)
  case 0
  then show ?case by simp
next
  case (Suc e)
  show ?case
  proof (cases "b \<le> e")
    case False
    with Suc.prems have "b = Suc e" by simp
    then show ?thesis by simp
  next
    case True
    define r where "r = foldl (track_subbucket h dmask) acc [b ..< e]"
    have step: "foldl (track_subbucket h dmask) acc [b ..< Suc e] = track_subbucket h dmask r e"
      using True by (simp add: r_def)
    from Suc.IH [OF True] have ih1: "fst acc \<le> fst r"
      and ih2: "\<And>i. b \<le> i \<Longrightarrow> i < e \<Longrightarrow> and i dmask = dmask \<Longrightarrow> h ! i \<le> fst r"
      and ih3: "r = acc \<or> (b \<le> snd r \<and> snd r < e \<and> and (snd r) dmask = dmask \<and>
                  h ! snd r = fst r \<and> fst acc < fst r)"
      unfolding r_def by blast+
    show ?thesis
      unfolding step
    proof (cases "and e dmask = dmask \<and> fst r < h ! e")
      case upd: True
      then have t: "track_subbucket h dmask r e = (h ! e, e)"
        by (simp add: track_subbucket_def)
      have "\<And>i. b \<le> i \<Longrightarrow> i < Suc e \<Longrightarrow> and i dmask = dmask \<Longrightarrow> h ! i \<le> h ! e"
        using ih2 upd by (metis less_Suc_eq less_imp_le order_refl order_trans)
      with ih1 upd True show "fst acc \<le> fst (track_subbucket h dmask r e) \<and>
         (\<forall>i. b \<le> i \<and> i < Suc e \<and> and i dmask = dmask \<longrightarrow> h ! i \<le> fst (track_subbucket h dmask r e)) \<and>
         (track_subbucket h dmask r e = acc \<or>
          (b \<le> snd (track_subbucket h dmask r e) \<and> snd (track_subbucket h dmask r e) < Suc e \<and>
           and (snd (track_subbucket h dmask r e)) dmask = dmask \<and>
           h ! snd (track_subbucket h dmask r e) = fst (track_subbucket h dmask r e) \<and>
           fst acc < fst (track_subbucket h dmask r e)))"
        unfolding t by auto
    next
      case keep: False
      then have t: "track_subbucket h dmask r e = r"
        by (auto simp: track_subbucket_def)
      have "\<And>i. b \<le> i \<Longrightarrow> i < Suc e \<Longrightarrow> and i dmask = dmask \<Longrightarrow> h ! i \<le> fst r"
        using ih2 keep by (metis less_Suc_eq not_less)
      with ih1 ih3 show "fst acc \<le> fst (track_subbucket h dmask r e) \<and>
         (\<forall>i. b \<le> i \<and> i < Suc e \<and> and i dmask = dmask \<longrightarrow> h ! i \<le> fst (track_subbucket h dmask r e)) \<and>
         (track_subbucket h dmask r e = acc \<or>
          (b \<le> snd (track_subbucket h dmask r e) \<and> snd (track_subbucket h dmask r e) < Suc e \<and>
           and (snd (track_subbucket h dmask r e)) dmask = dmask \<and>
           h ! snd (track_subbucket h dmask r e) = fst (track_subbucket h dmask r e) \<and>
           fst acc < fst (track_subbucket h dmask r e)))"
        unfolding t by auto
    qed
  qed
qed

lemma max_subbucket_loop_Inr:
  "max_subbucket_loop h ms dmask b acc = Inr res \<Longrightarrow> b \<le> length h \<Longrightarrow>
   res = foldl (track_subbucket h dmask) acc [b ..< length h]"
proof (induction h ms dmask b acc rule: max_subbucket_loop.induct)
  case (1 h ms dmask b acc)
  show ?case
  proof (cases "b < length h")
    case False
    with "1.prems" show ?thesis
      by (subst (asm) max_subbucket_loop.simps) simp
  next
    case True
    define e where "e = fst (grow_block h (length h) ms b 0)"
    have e_le: "e \<le> length h" and b_le: "b \<le> e"
      using grow_block_le [of h "length h" ms b 0] grow_block_ge [of b h "length h" ms 0] True
      by (simp_all add: e_def)
    from "1.prems"(1) True have ne: "e \<noteq> b"
      and rec: "max_subbucket_loop h ms dmask e (foldl (track_subbucket h dmask) acc [b ..< e]) = Inr res"
      by (subst (asm) max_subbucket_loop.simps, simp add: Let_def e_def split: if_splits)+
    from "1.IH" [OF True e_def ne rec e_le]
    have "res = foldl (track_subbucket h dmask) (foldl (track_subbucket h dmask) acc [b ..< e]) [e ..< length h]" .
    also have "\<dots> = foldl (track_subbucket h dmask) acc ([b ..< e] @ [e ..< length h])"
      by simp
    also have "[b ..< e] @ [e ..< length h] = [b ..< length h]"
      using b_le e_le by (metis le_Suc_ex upt_add_eq_append)
    finally show ?thesis .
  qed
qed

lemma max_subbucket_loop_no_throw:
  "\<forall>i < length h. u32 (h ! i) \<le> ms \<Longrightarrow> \<exists>res. max_subbucket_loop h ms dmask b acc = Inr res"
proof (induction h ms dmask b acc rule: max_subbucket_loop.induct)
  case (1 h ms dmask b acc)
  show ?case
  proof (cases "b < length h")
    case False
    then show ?thesis
      by (subst max_subbucket_loop.simps) simp
  next
    case True
    define e where "e = fst (grow_block h (length h) ms b 0)"
    have "u32 (0 + h ! b) \<le> ms"
      using "1.prems" True by simp
    from grow_block_gt [OF True this] have ne: "e \<noteq> b"
      by (simp add: e_def)
    from "1.IH" [OF True e_def ne "1.prems"]
    obtain res where "max_subbucket_loop h ms dmask e (foldl (track_subbucket h dmask) acc [b ..< e]) = Inr res"
      by blast
    with True ne show ?thesis
      by (subst max_subbucket_loop.simps) (simp add: Let_def e_def)
  qed
qed



lemma max_subbucket_size_Inr:
  assumes "max_subbucket_size db h ms limit st = Inr (m, st')"
  shows "(\<forall>i < length h. and i (DOLLAR_MASK_of db) = DOLLAR_MASK_of db \<longrightarrow> h ! i \<le> m) \<and>
         (m \<le> limit \<longrightarrow> st' = st) \<and>
         (limit < m \<longrightarrow> code st' = LargeBucket \<and> bucket_size st' = m \<and>
              bucket_index st' < length h \<and>
              and (bucket_index st') (DOLLAR_MASK_of db) = DOLLAR_MASK_of db \<and>
              h ! bucket_index st' = m)"
proof -
  define dmask where "dmask = DOLLAR_MASK_of db"
  from assms obtain mi where loop: "max_subbucket_loop h ms dmask 0 (0, 0) = Inr (m, mi)"
    and st': "st' = (if m > limit
                     then st \<lparr> code := LargeBucket, bucket_size := m, bucket_index := mi \<rparr>
                     else st)"
    by (auto simp: max_subbucket_size_def dmask_def split: sum.splits prod.splits)
  from max_subbucket_loop_Inr [OF loop]
  have res: "(m, mi) = foldl (track_subbucket h dmask) (0, 0) [0 ..< length h]"
    by simp
  from foldl_track_inv [of 0 "length h" "(0, 0)" h dmask]
  have a: "\<And>i. i < length h \<Longrightarrow> and i dmask = dmask \<Longrightarrow> h ! i \<le> m"
    and b: "(m, mi) = (0, 0) \<or> (mi < length h \<and> and mi dmask = dmask \<and> h ! mi = m)"
    unfolding res [symmetric] by auto
  from b have "limit < m \<Longrightarrow> mi < length h \<and> and mi dmask = dmask \<and> h ! mi = m"
    by auto
  with a st' show ?thesis
    unfolding dmask_def [symmetric] by auto
qed

lemma max_subbucket_size_LargeBucket_iff:
  assumes "max_subbucket_size db h ms limit st = Inr (m, st')" and "code st = OK"
  shows "code st' = LargeBucket \<longleftrightarrow>
         (\<exists>i < length h. and i (DOLLAR_MASK_of db) = DOLLAR_MASK_of db \<and> limit < h ! i)"
proof -
  note r = max_subbucket_size_Inr [OF assms(1)]
  show ?thesis
  proof (cases "limit < m")
    case True
    with r show ?thesis by auto
  next
    case False
    with r have "st' = st" and "\<forall>i < length h. and i (DOLLAR_MASK_of db) = DOLLAR_MASK_of db \<longrightarrow> h ! i \<le> limit"
      by (auto intro: order_trans)
    with assms(2) show ?thesis
      by (auto simp: OK_def LargeBucket_def)
  qed
qed

lemma max_subbucket_size_total:
  assumes "\<forall>i < length h. u32 (h ! i) \<le> ms"
  shows "\<exists>m st'. max_subbucket_size db h ms limit st = Inr (m, st')"
proof -
  from max_subbucket_loop_no_throw [OF assms]
  obtain res where "max_subbucket_loop h ms (DOLLAR_MASK_of db) 0 (0, 0) = Inr res"
    by blast
  then show ?thesis
    by (cases res) (simp add: max_subbucket_size_def)
qed


lemma sub_u32_no_wrap:
  assumes "b \<le> a" and "a < 2 ^ 32"
  shows "sub_u32 a b = a - b"
proof -
  have "b mod 2 ^ 32 = b"
    using assms by simp
  then have "a + (2 ^ 32 - b mod 2 ^ 32) = (a - b) + 1 * 2 ^ 32"
    using assms by simp
  then have "sub_u32 a b = ((a - b) + 1 * 2 ^ 32) mod 2 ^ 32"
    by (simp only: sub_u32_def)
  also have "\<dots> = (a - b) mod 2 ^ 32"
    by (simp only: mod_mult_self1)
  also have "\<dots> = a - b"
    using assms by simp
  finally show ?thesis .
qed

lemma dollar_loop_total:
  assumes "0 < bs" and "N + bs \<le> 2 ^ 32"
  shows "\<exists>new. dollar_loop S N bs b evs = Some (evs @ new) \<and> dollar_chain b N new \<and>
               concat (map event_symbols new) = map last (take (N - b) (drop b S))"
proof (induction "N - b" arbitrary: b evs rule: less_induct)
  case less
  show ?case
  proof (cases "b < N")
    case False
    then have "dollar_loop S N bs b evs = Some (evs @ [])"
      by (subst dollar_loop.simps) simp
    moreover have "dollar_chain b N []" and "N - b = 0"
      using False by simp_all
    ultimately show ?thesis
      by (metis concat.simps(1) list.simps(8) take_0)
  next
    case True
    define be where "be = min (b + bs) N"
    have nw: "u32 (b + bs) = b + bs"
      using True assms(2) by (simp add: u32_def)
    have be: "b < be" "be \<le> N"
      using True assms(1) by (simp_all add: be_def)
    have sub: "sub_u32 be b = be - b"
      using be assms by (intro sub_u32_no_wrap) simp_all
    define ev where "ev = DollarEmit b be (be - b) (dollar_bwt S b be)"
    have unfold: "dollar_loop S N bs b evs = dollar_loop S N bs (b + bs) (evs @ [ev])"
      using True by (subst dollar_loop.simps) (simp add: nw be_def [symmetric] sub ev_def)
    have "N - (b + bs) < N - b"
      using True assms(1) by simp
    from less [OF this, of "evs @ [ev]"]
    obtain new where new: "dollar_loop S N bs (b + bs) (evs @ [ev]) = Some ((evs @ [ev]) @ new)"
      and chain: "dollar_chain (b + bs) N new"
      and syms: "concat (map event_symbols new) = map last (take (N - (b + bs)) (drop (b + bs) S))"
      by blast
    have chain': "dollar_chain be N new"
    proof (cases "b + bs \<le> N")
      case True
      then show ?thesis using chain by (simp add: be_def min_def)
    next
      case False
      then have "be = N" by (simp add: be_def)
      moreover from False have "dollar_loop S N bs (b + bs) (evs @ [ev]) = Some (evs @ [ev])"
        by (subst dollar_loop.simps) simp
      with new have "new = []" by simp
      ultimately show ?thesis by simp
    qed
    have syms': "concat (map event_symbols new) = map last (take (N - be) (drop be S))"
    proof (cases "b + bs \<le> N")
      case True
      then show ?thesis using syms by (simp add: be_def min_def)
    next
      case False
      then have "be = N" by (simp add: be_def)
      moreover from False have "N - (b + bs) = 0" by simp
      ultimately show ?thesis using syms by simp
    qed
    have "take (N - b) (drop b S) = take ((be - b) + (N - be)) (drop b S)"
      using be by simp
    also have "\<dots> = take (be - b) (drop b S) @ take (N - be) (drop (be - b) (drop b S))"
      by (rule take_add)
    also have "drop (be - b) (drop b S) = drop be S"
      using be by simp
    finally have split: "take (N - b) (drop b S)
                          = take (be - b) (drop b S) @ take (N - be) (drop be S)" .
    have "dollar_loop S N bs b evs = Some (evs @ (ev # new))"
      using unfold new by simp
    moreover have "dollar_chain b N (ev # new)"
      using be chain' by (simp add: ev_def)
    moreover have "concat (map event_symbols (ev # new)) = map last (take (N - b) (drop b S))"
      using syms' by (simp add: ev_def dollar_bwt_def split)
    ultimately show ?thesis by blast
  qed
qed

lemma direct_loop_total:
  assumes "0 < mb" and "sz + mb \<le> 2 ^ 32"
  shows "\<exists>new. direct_loop mb i sz bb evs = Some (evs @ new) \<and>
               (\<forall>ev \<in> set new. \<exists>b e. ev = DirectEmit i b e \<and> b < e \<and> e \<le> sz \<and> e - b \<le> mb) \<and>
               (bb < sz \<longrightarrow> new \<noteq> [] \<and> hd new = DirectEmit i bb (min (bb + mb) sz))"
proof (induction "sz - bb" arbitrary: bb evs rule: less_induct)
  case less
  show ?case
  proof (cases "bb < sz")
    case False
    then have "direct_loop mb i sz bb evs = Some (evs @ [])"
      by (subst direct_loop.simps) simp
    with False show ?thesis by fastforce
  next
    case True
    have nw: "u32 (bb + mb) = bb + mb"
      using True assms(2) by (simp add: u32_def)
    define ev where "ev = DirectEmit i bb (min (bb + mb) sz)"
    have unfold: "direct_loop mb i sz bb evs = direct_loop mb i sz (bb + mb) (evs @ [ev])"
      using True by (subst direct_loop.simps) (simp add: nw ev_def)
    have "sz - (bb + mb) < sz - bb"
      using True assms(1) by simp
    from less [OF this, of "evs @ [ev]"]
    obtain new where new: "direct_loop mb i sz (bb + mb) (evs @ [ev]) = Some ((evs @ [ev]) @ new)"
      and all: "\<forall>ev \<in> set new. \<exists>b e. ev = DirectEmit i b e \<and> b < e \<and> e \<le> sz \<and> e - b \<le> mb"
      by blast
    have "direct_loop mb i sz bb evs = Some (evs @ (ev # new))"
      using unfold new by simp
    moreover have "\<exists>b e. ev = DirectEmit i b e \<and> b < e \<and> e \<le> sz \<and> e - b \<le> mb"
      using True assms(1) by (auto simp: ev_def)
    ultimately show ?thesis
      using all True by (auto simp: ev_def)
  qed
qed

lemma grow_block_range:
  assumes "sz \<le> cap" and "\<forall>i. e \<le> i \<and> i < bound \<longrightarrow> h ! i + cap < 2 ^ 32"
  shows "(\<forall>i. e \<le> i \<and> i < fst (grow_block h bound cap e sz) \<longrightarrow> h ! i \<le> cap) \<and>
         snd (grow_block h bound cap e sz)
           = sz + sum_list (map ((!) h) [e ..< fst (grow_block h bound cap e sz)]) \<and>
         snd (grow_block h bound cap e sz) \<le> cap"
  using assms
proof (induction h bound cap e sz rule: grow_block.induct)
  case (1 h bound cap e sz)
  show ?case
  proof (cases "e < bound \<and> u32 (sz + h ! e) \<le> cap")
    case False
    then have "grow_block h bound cap e sz = (e, sz)"
      by (subst grow_block.simps) auto
    with "1.prems" show ?thesis by simp
  next
    case True
    have nw: "u32 (sz + h ! e) = sz + h ! e"
      using True "1.prems" by (intro u32_id) (metis add.commute add_le_mono1 le_less_trans order_refl)
    define r where "r = grow_block h bound cap (e + 1) (sz + h ! e)"
    have unfold: "grow_block h bound cap e sz = r"
      using True by (subst grow_block.simps) (simp add: nw r_def)
    have le: "sz + h ! e \<le> cap"
      using True nw by simp
    have "\<forall>i. e + 1 \<le> i \<and> i < bound \<longrightarrow> h ! i + cap < 2 ^ 32"
      using "1.prems"(2) by simp
    from "1.IH" [OF True, unfolded nw, OF le this]
    have ih1: "\<And>i. e + 1 \<le> i \<Longrightarrow> i < fst r \<Longrightarrow> h ! i \<le> cap"
      and ih2: "snd r = sz + h ! e + sum_list (map ((!) h) [e + 1 ..< fst r])"
      and ih3: "snd r \<le> cap"
      unfolding r_def by blast+
    have ge: "e + 1 \<le> fst r"
      unfolding r_def by (rule grow_block_ge)
    have "\<And>i. e \<le> i \<Longrightarrow> i < fst r \<Longrightarrow> h ! i \<le> cap"
    proof -
      fix i assume "e \<le> i" "i < fst r"
      show "h ! i \<le> cap"
      proof (cases "i = e")
        case True
        with le show ?thesis by simp
      next
        case False
        with \<open>e \<le> i\<close> \<open>i < fst r\<close> show ?thesis by (intro ih1) simp_all
      qed
    qed
    moreover have "[e ..< fst r] = e # [e + 1 ..< fst r]"
      using ge by (simp add: upt_conv_Cons)
    then have "snd r = sz + sum_list (map ((!) h) [e ..< fst r])"
      using ih2 by simp
    ultimately show ?thesis
      unfolding unfold using ih3 by blast
  qed
qed

lemma routed_empty: "be \<le> sb \<Longrightarrow> routed h mb dmask sb be []"
  by (simp add: routed_def)

lemma routed_weaken:
  assumes "routed h mb dmask sb' be new" and "sb \<le> sb'"
  shows "\<forall>ev \<in> set new.
        (\<exists>b e n. ev = SortEmit b e n \<and> sb \<le> b \<and> b < e \<and> e \<le> be \<and> 0 < n \<and>
                  (\<forall>i. b \<le> i \<and> i < e \<longrightarrow> h ! i \<le> mb)) \<or>
        (\<exists>i b e. ev = DirectEmit i b e \<and> sb \<le> i \<and> i < be \<and> and i dmask \<noteq> dmask \<and>
                  mb < h ! i \<and> e - b \<le> mb)"
proof
  fix ev assume "ev \<in> set new"
  with assms(1) have "(\<exists>b e n. ev = SortEmit b e n \<and> sb' \<le> b \<and> b < e \<and> e \<le> be \<and> 0 < n \<and>
                  (\<forall>i. b \<le> i \<and> i < e \<longrightarrow> h ! i \<le> mb)) \<or>
        (\<exists>i b e. ev = DirectEmit i b e \<and> sb' \<le> i \<and> i < be \<and> and i dmask \<noteq> dmask \<and>
                  mb < h ! i \<and> e - b \<le> mb)"
    unfolding routed_def by blast
  with assms(2) show "(\<exists>b e n. ev = SortEmit b e n \<and> sb \<le> b \<and> b < e \<and> e \<le> be \<and> 0 < n \<and>
                  (\<forall>i. b \<le> i \<and> i < e \<longrightarrow> h ! i \<le> mb)) \<or>
        (\<exists>i b e. ev = DirectEmit i b e \<and> sb \<le> i \<and> i < be \<and> and i dmask \<noteq> dmask \<and>
                  mb < h ! i \<and> e - b \<le> mb)"
    by (elim disjE exE conjE) (auto intro: order_trans)
qed

lemma subbucket_loop_routed:
  assumes "0 < mb" and "\<forall>i < be. h ! i + mb < 2 ^ 32"
    and "\<forall>i. i < be \<and> and i dmask = dmask \<longrightarrow> h ! i \<le> mb"
  shows "\<exists>new. subbucket_loop h mb dmask be sb evs = Some (evs @ new, None) \<and>
               routed h mb dmask sb be new"
proof (induction "be - sb" arbitrary: sb evs rule: less_induct)
  case less
  show ?case
  proof (cases "sb < be")
    case False
    then have "subbucket_loop h mb dmask be sb evs = Some (evs @ [], None)"
      by (subst subbucket_loop.simps) simp
    moreover have "routed h mb dmask sb be []"
      using False by (simp add: routed_empty)
    ultimately show ?thesis by blast
  next
    case True
    show ?thesis
    proof (cases "mb < h ! sb")
      case big: True
      with assms(3) True have short: "and sb dmask \<noteq> dmask"
        by (metis not_less)
      have "h ! sb + mb \<le> 2 ^ 32"
        using assms(2) True by (simp add: less_imp_le)
      from direct_loop_total [OF assms(1) this, of sb 0 evs]
      obtain d where d: "direct_loop mb sb (h ! sb) 0 evs = Some (evs @ d)"
        and d_all: "\<forall>ev \<in> set d. \<exists>b e. ev = DirectEmit sb b e \<and> b < e \<and> e \<le> h ! sb \<and> e - b \<le> mb"
        and d_hd: "d \<noteq> [] \<and> hd d = DirectEmit sb 0 (min (0 + mb) (h ! sb))"
        using big assms(1) by (metis (no_types, lifting) gr_implies_not_zero linorder_neqE_nat not_less_zero less_trans)
      have "be - (sb + 1) < be - sb"
        using True by simp
      from less [OF this, of "evs @ d"]
      obtain new where new: "subbucket_loop h mb dmask be (sb + 1) (evs @ d) = Some ((evs @ d) @ new, None)"
        and r: "routed h mb dmask (sb + 1) be new"
        by blast
      have res: "subbucket_loop h mb dmask be sb evs = Some (evs @ (d @ new), None)"
        using True big short d new by (subst subbucket_loop.simps) simp
      have first: "DirectEmit sb 0 (min mb (h ! sb)) \<in> set d"
        using d_hd by (metis add_0 hd_in_set)
      have "routed h mb dmask sb be (d @ new)"
        unfolding routed_def
      proof (intro conjI ballI allI impI)
        fix ev assume "ev \<in> set (d @ new)"
        then consider "ev \<in> set d" | "ev \<in> set new" by auto
        then show "(\<exists>b e n. ev = SortEmit b e n \<and> sb \<le> b \<and> b < e \<and> e \<le> be \<and> 0 < n \<and>
                  (\<forall>i. b \<le> i \<and> i < e \<longrightarrow> h ! i \<le> mb)) \<or>
              (\<exists>i b e. ev = DirectEmit i b e \<and> sb \<le> i \<and> i < be \<and> and i dmask \<noteq> dmask \<and>
                  mb < h ! i \<and> e - b \<le> mb)"
        proof cases
          case 1
          with d_all obtain b e where "ev = DirectEmit sb b e" "e - b \<le> mb" by blast
          with True big short show ?thesis by blast
        next
          case 2
          with routed_weaken [OF r, of sb] show ?thesis by simp
        qed
      next
        fix i assume i: "sb \<le> i \<and> i < be \<and> mb < h ! i"
        show "DirectEmit i 0 (min mb (h ! i)) \<in> set (d @ new)"
        proof (cases "i = sb")
          case True
          with first show ?thesis by simp
        next
          case False
          with i have "sb + 1 \<le> i \<and> i < be \<and> mb < h ! i" by simp
          with r show ?thesis unfolding routed_def by simp
        qed
      next
        fix i assume i: "sb \<le> i \<and> i < be \<and> 0 < h ! i \<and> h ! i \<le> mb"
        with big have "sb + 1 \<le> i \<and> i < be \<and> 0 < h ! i \<and> h ! i \<le> mb"
          by (metis Suc_eq_plus1 Suc_leI le_neq_implies_less not_less)
        with r show "\<exists>b e n. SortEmit b e n \<in> set (d @ new) \<and> b \<le> i \<and> i < e"
          unfolding routed_def by (metis Un_iff set_append)
      qed
      with res show ?thesis by blast
    next
      case small: False
      define e where "e = fst (grow_block h be mb sb 0)"
      define sz where "sz = snd (grow_block h be mb sb 0)"
      have "u32 (0 + h ! sb) \<le> mb"
        using small by (simp add: u32_def)
      from grow_block_gt [OF True this] have e_gt: "sb < e"
        by (simp add: e_def)
      have e_le: "e \<le> be"
        using grow_block_le [of h be mb sb 0] True by (simp add: e_def)
      have "\<forall>i. sb \<le> i \<and> i < be \<longrightarrow> h ! i + mb < 2 ^ 32"
        using assms(2) by simp
      from grow_block_range [of 0 mb sb be h, OF _ this]
      have range: "\<And>i. sb \<le> i \<Longrightarrow> i < e \<Longrightarrow> h ! i \<le> mb"
        and sum: "sz = sum_list (map ((!) h) [sb ..< e])"
        unfolding e_def sz_def by simp_all
      have "be - e < be - sb"
        using True e_gt by simp
      note ih = less [OF this]
      show ?thesis
      proof (cases "sz = 0")
        case zero: True
        from ih [of evs]
        obtain new where new: "subbucket_loop h mb dmask be e evs = Some (evs @ new, None)"
          and r: "routed h mb dmask e be new"
          by blast
        have res: "subbucket_loop h mb dmask be sb evs = Some (evs @ new, None)"
          using True small zero new by (subst subbucket_loop.simps) (simp add: e_def sz_def)
        have empty: "\<And>i. sb \<le> i \<Longrightarrow> i < e \<Longrightarrow> h ! i = 0"
          using zero sum by (auto simp: sum_list_eq_0_iff)
        have "routed h mb dmask sb be new"
          unfolding routed_def
        proof (intro conjI allI impI)
          show "\<forall>ev \<in> set new.
              (\<exists>b e n. ev = SortEmit b e n \<and> sb \<le> b \<and> b < e \<and> e \<le> be \<and> 0 < n \<and>
                  (\<forall>i. b \<le> i \<and> i < e \<longrightarrow> h ! i \<le> mb)) \<or>
              (\<exists>i b e. ev = DirectEmit i b e \<and> sb \<le> i \<and> i < be \<and> and i dmask \<noteq> dmask \<and>
                  mb < h ! i \<and> e - b \<le> mb)"
            using routed_weaken [OF r, of sb] e_gt by simp
        next
          fix i assume i: "sb \<le> i \<and> i < be \<and> mb < h ! i"
          with range have "e \<le> i" by (metis not_less)
          with i r show "DirectEmit i 0 (min mb (h ! i)) \<in> set new"
            unfolding routed_def by simp
        next
          fix i assume i: "sb \<le> i \<and> i < be \<and> 0 < h ! i \<and> h ! i \<le> mb"
          with empty have "e \<le> i" by (metis not_less less_numeral_extra(3))
          with i r show "\<exists>b e n. SortEmit b e n \<in> set new \<and> b \<le> i \<and> i < e"
            unfolding routed_def by simp
        qed
        with res show ?thesis by blast
      next
        case pos: False
        define ev where "ev = SortEmit sb e sz"
        from ih [of "evs @ [ev]"]
        obtain new where new: "subbucket_loop h mb dmask be e (evs @ [ev]) = Some ((evs @ [ev]) @ new, None)"
          and r: "routed h mb dmask e be new"
          by blast
        have res: "subbucket_loop h mb dmask be sb evs = Some (evs @ (ev # new), None)"
          using True small pos new by (subst subbucket_loop.simps) (simp add: e_def sz_def ev_def)
        have "routed h mb dmask sb be (ev # new)"
          unfolding routed_def
        proof (intro conjI ballI allI impI)
          fix x assume "x \<in> set (ev # new)"
          then consider "x = ev" | "x \<in> set new" by auto
          then show "(\<exists>b e n. x = SortEmit b e n \<and> sb \<le> b \<and> b < e \<and> e \<le> be \<and> 0 < n \<and>
                  (\<forall>i. b \<le> i \<and> i < e \<longrightarrow> h ! i \<le> mb)) \<or>
              (\<exists>i b e. x = DirectEmit i b e \<and> sb \<le> i \<and> i < be \<and> and i dmask \<noteq> dmask \<and>
                  mb < h ! i \<and> e - b \<le> mb)"
          proof cases
            case 1
            then show ?thesis
              using e_gt e_le pos range by (auto simp: ev_def)
          next
            case 2
            with routed_weaken [OF r, of sb] e_gt show ?thesis by simp
          qed
        next
          fix i assume i: "sb \<le> i \<and> i < be \<and> mb < h ! i"
          with range have "e \<le> i" by (metis not_less)
          with i r show "DirectEmit i 0 (min mb (h ! i)) \<in> set (ev # new)"
            unfolding routed_def by simp
        next
          fix i assume i: "sb \<le> i \<and> i < be \<and> 0 < h ! i \<and> h ! i \<le> mb"
          show "\<exists>b e n. SortEmit b e n \<in> set (ev # new) \<and> b \<le> i \<and> i < e"
          proof (cases "i < e")
            case True
            with i show ?thesis by (auto simp: ev_def)
          next
            case False
            with i r have "\<exists>b e n. SortEmit b e n \<in> set new \<and> b \<le> i \<and> i < e"
              unfolding routed_def by simp
            then show ?thesis by auto
          qed
        qed
        with res show ?thesis by blast
      qed
    qed
  qed
qed

lemma dollar_free_simps [simp]:
  "dollar_free []"
  "dollar_free (ev # evs) \<longleftrightarrow> \<not> is_dollar_emit ev \<and> dollar_free evs"
  "dollar_free (xs @ ys) \<longleftrightarrow> dollar_free xs \<and> dollar_free ys"
  by (simp_all add: dollar_free_def)

lemma count_steps_events:
  "snd (foldl (count_step bk S N) (d, evs) ids)
     = evs @ map (\<lambda>c. CountChunk (chunk_begin_of c) (chunk_end_of N c)) ids"
  by (induction ids arbitrary: d evs) (simp_all add: count_step_def)

lemma count_steps_buckets:
  "fst (foldl (count_step bk S N) (d, evs) ids) = fst (foldl (count_step bk S N) (d, evs') ids)"
  by (induction ids arbitrary: d evs evs') (simp_all add: count_step_def)

lemma count_pass_events:
  "\<exists>new. snd (count_pass K bk S N evs) = evs @ new \<and> dollar_free new"
proof -
  have "dollar_free (map (\<lambda>c. CountChunk (chunk_begin_of c) (chunk_end_of N c)) ids)" for ids
    by (induction ids) simp_all
  then show ?thesis
    unfolding count_pass_def count_steps_events by blast
qed

lemma count_pass_buckets:
  "fst (count_pass K bk S N evs) = fst (count_pass K bk S N [])"
  unfolding count_pass_def by (rule count_steps_buckets)

lemma collect_pass_events:
  "\<exists>new. fst (collect_pass bk S N ms hs b e ids sc evs) = evs @ new \<and> dollar_free new"
proof (induction ids arbitrary: sc evs)
  case Nil
  then show ?case by simp
next
  case (Cons c ids)
  define n where "n = u32 (collect_n bk (load_chunk S (chunk_begin_of c) (chunk_end_of N c)) b e hs)"
  define ev where "ev = CollectChunk b e (chunk_begin_of c) (chunk_end_of N c)"
  show ?case
  proof (cases "u32 (sc + n) > ms")
    case True
    then have "fst (collect_pass bk S N ms hs b e (c # ids) sc evs) = evs @ [ev]"
      by (simp add: Let_def n_def ev_def)
    then show ?thesis by (simp add: ev_def)
  next
    case False
    from Cons [of "u32 (sc + n)" "evs @ [ev]"]
    obtain new where "fst (collect_pass bk S N ms hs b e ids (u32 (sc + n)) (evs @ [ev])) = (evs @ [ev]) @ new"
      and "dollar_free new"
      by blast
    with False have "fst (collect_pass bk S N ms hs b e (c # ids) sc evs) = evs @ (ev # new)"
      and "dollar_free (ev # new)"
      by (simp_all add: Let_def n_def ev_def)
    then show ?thesis by blast
  qed
qed

lemma direct_loop_events:
  assumes "direct_loop mb i sz bb evs = Some evs'"
  shows "\<exists>new. evs' = evs @ new \<and> dollar_free new"
proof (rule direct_loop.raw_induct
         [where P = "\<lambda>mb i sz bb evs evs'. \<exists>new. evs' = evs @ new \<and> dollar_free new", OF _ assms])
  fix f :: "nat \<Rightarrow> nat \<Rightarrow> nat \<Rightarrow> nat \<Rightarrow> event list \<Rightarrow> event list option"
    and mb i sz bb :: nat and evs y :: "event list"
  assume ih: "\<And>mb i sz bb evs y. f mb i sz bb evs = Some y \<Longrightarrow> \<exists>new. y = evs @ new \<and> dollar_free new"
    and eq: "(if bb < sz then f mb i sz (u32 (bb + mb)) (evs @ [DirectEmit i bb (min (u32 (bb + mb)) sz)])
              else Some evs) = Some y"
  show "\<exists>new. y = evs @ new \<and> dollar_free new"
  proof (cases "bb < sz")
    case False
    with eq show ?thesis by simp
  next
    case True
    with eq have "f mb i sz (u32 (bb + mb))
                      (evs @ [DirectEmit i bb (min (u32 (bb + mb)) sz)]) = Some y"
      by simp
    from ih [OF this] obtain new
      where "y = (evs @ [DirectEmit i bb (min (u32 (bb + mb)) sz)]) @ new" and "dollar_free new"
      by blast
    then have "y = evs @ (DirectEmit i bb (min (u32 (bb + mb)) sz) # new)"
      and "dollar_free (DirectEmit i bb (min (u32 (bb + mb)) sz) # new)"
      by simp_all
    then show ?thesis by blast
  qed
qed

lemma subbucket_loop_events:
  "subbucket_loop h mb dmask be sb evs = Some (evs', x) \<Longrightarrow>
   \<exists>new. evs' = evs @ new \<and> dollar_free new"
proof (induction "be - sb" arbitrary: sb evs rule: less_induct)
  case less
  note run = less.prems
  show ?case
  proof (cases "sb < be")
    case False
    with run show ?thesis
      by (subst (asm) subbucket_loop.simps) simp
  next
    case True
    show ?thesis
    proof (cases "mb < h ! sb")
      case big: True
      show ?thesis
      proof (cases "and sb dmask = dmask")
        case True
        with run \<open>sb < be\<close> big show ?thesis
          by (subst (asm) subbucket_loop.simps) simp
      next
        case False
        with run \<open>sb < be\<close> big obtain d where d: "direct_loop mb sb (h ! sb) 0 evs = Some d"
          and rec: "subbucket_loop h mb dmask be (sb + 1) d = Some (evs', x)"
          by (subst (asm) subbucket_loop.simps) (auto split: option.splits)
        from direct_loop_events [OF d] obtain n1 where n1: "d = evs @ n1" "dollar_free n1"
          by blast
        have "be - (sb + 1) < be - sb"
          using \<open>sb < be\<close> by simp
        from less.hyps [OF this rec] obtain n2 where "evs' = d @ n2" "dollar_free n2"
          by blast
        with n1 have "evs' = evs @ (n1 @ n2)" "dollar_free (n1 @ n2)"
          by simp_all
        then show ?thesis by blast
      qed
    next
      case small: False
      define e where "e = fst (grow_block h be mb sb 0)"
      define sz where "sz = snd (grow_block h be mb sb 0)"
      have "u32 (0 + h ! sb) \<le> mb"
        using small by (simp add: u32_def)
      from grow_block_gt [OF True this] have "sb < e"
        by (simp add: e_def)
      then have m: "be - e < be - sb"
        using True by simp
      show ?thesis
      proof (cases "sz = 0")
        case True
        with run \<open>sb < be\<close> small have "subbucket_loop h mb dmask be e evs = Some (evs', x)"
          by (subst (asm) subbucket_loop.simps) (simp add: e_def sz_def)
        from less.hyps [OF m this] show ?thesis .
      next
        case False
        with run \<open>sb < be\<close> small
        have "subbucket_loop h mb dmask be e (evs @ [SortEmit sb e sz]) = Some (evs', x)"
          by (subst (asm) subbucket_loop.simps) (simp add: e_def sz_def)
        from less.hyps [OF m this] obtain n2
          where "evs' = (evs @ [SortEmit sb e sz]) @ n2" "dollar_free n2"
          by blast
        then have "evs' = evs @ (SortEmit sb e sz # n2)" "dollar_free (SortEmit sb e sz # n2)"
          by simp_all
        then show ?thesis by blast
      qed
    qed
  qed
qed

lemma super_block_loop_events:
  assumes "super_block_loop bk S N h ms mb dmask hs b evs = Some r"
  shows "\<exists>new. fst r = evs @ new \<and> dollar_free new"
proof (rule super_block_loop.raw_induct
         [where P = "\<lambda>bk S N h ms mb dmask hs b evs r. \<exists>new. fst r = evs @ new \<and> dollar_free new",
          OF _ assms])
  fix f :: "bucketer \<Rightarrow> string_set \<Rightarrow> nat \<Rightarrow> nat list \<Rightarrow> nat \<Rightarrow> nat \<Rightarrow> nat \<Rightarrow> nat list \<Rightarrow> nat \<Rightarrow>
            event list \<Rightarrow> (event list \<times> exn option) option"
    and bk :: bucketer and S :: string_set and N ms mb dmask b :: nat and h hs :: "nat list"
    and evs :: "event list" and r :: "event list \<times> exn option"
  assume ih: "\<And>bk S N h ms mb dmask hs b evs r. f bk S N h ms mb dmask hs b evs = Some r \<Longrightarrow>
                \<exists>new. fst r = evs @ new \<and> dollar_free new"
    and eq: "(if b < length h
      then (case collect_pass bk S N ms hs b (fst (grow_block h (length h) ms b 0))
                   [0 ..< n_chunks_of N] 0 evs of
              (evs', Some e) \<Rightarrow> Some (evs', Some e)
            | (evs', None) \<Rightarrow>
                (case subbucket_loop h mb dmask (fst (grow_block h (length h) ms b 0)) b evs' of
                   None \<Rightarrow> None
                 | Some (evs'', Some e) \<Rightarrow> Some (evs'', Some e)
                 | Some (evs'', None) \<Rightarrow>
                     f bk S N h ms mb dmask hs (fst (grow_block h (length h) ms b 0)) evs''))
      else Some (evs, None)) = Some r"
  show "\<exists>new. fst r = evs @ new \<and> dollar_free new"
  proof (cases "b < length h")
    case False
    with eq show ?thesis by auto
  next
    case True
    define e where "e = fst (grow_block h (length h) ms b 0)"
    obtain c cx where c: "collect_pass bk S N ms hs b e [0 ..< n_chunks_of N] 0 evs = (c, cx)"
      by (cases "collect_pass bk S N ms hs b e [0 ..< n_chunks_of N] 0 evs")
    from collect_pass_events [of bk S N ms hs b e "[0 ..< n_chunks_of N]" 0 evs] c
    obtain n1 where n1: "c = evs @ n1" "dollar_free n1"
      by auto
    show ?thesis
    proof (cases cx)
      case (Some ex)
      with eq True c have "r = (c, Some ex)"
        by (simp add: e_def)
      with n1 show ?thesis by auto
    next
      case None
      show ?thesis
      proof (cases "subbucket_loop h mb dmask e b c")
        case sl_none: None
        with eq True c None show ?thesis
          by (simp add: e_def)
      next
        case (Some sr)
        obtain s sx where sr: "sr = (s, sx)" by (cases sr)
        from subbucket_loop_events [OF Some [unfolded sr]]
        obtain n2 where n2: "s = c @ n2" "dollar_free n2"
          by blast
        show ?thesis
        proof (cases sx)
          case (Some ex)
          with eq True c None \<open>subbucket_loop h mb dmask e b c = Some sr\<close> sr
          have "r = (s, Some ex)"
            by (simp add: e_def)
          with n1 n2 show ?thesis by auto
        next
          case sx_none: None
          with eq True c None \<open>subbucket_loop h mb dmask e b c = Some sr\<close> sr
          have "f bk S N h ms mb dmask hs e s = Some r"
            by (simp add: e_def)
          from ih [OF this] obtain n3 where "fst r = s @ n3" "dollar_free n3"
            by blast
          with n1 n2 have "fst r = evs @ (n1 @ n2 @ n3)" "dollar_free (n1 @ n2 @ n3)"
            by simp_all
          then show ?thesis by blast
        qed
      qed
    qed
  qed
qed

lemma build_sub_loop_total:
  assumes "\<forall>i. i < be \<and> and i dmask = dmask \<longrightarrow> h ! i \<le> mb"
  shows "\<exists>r. build_sub_loop h mb dmask be sb hs = Inr r"
proof (induction "be - sb" arbitrary: sb hs rule: less_induct)
  case less
  show ?case
  proof (cases "sb < be")
    case False
    then show ?thesis
      by (subst build_sub_loop.simps) simp
  next
    case True
    show ?thesis
    proof (cases "mb < h ! sb")
      case big: True
      with assms True have short: "and sb dmask \<noteq> dmask"
        by (metis not_less)
      have "be - (sb + 1) < be - sb"
        using True by simp
      from less [OF this, of "hs[sb := sb]"] True big short show ?thesis
        by (subst build_sub_loop.simps) simp
    next
      case small: False
      have "u32 (0 + h ! sb) \<le> mb"
        using small by (simp add: u32_def)
      from grow_block_gt [OF True this] have "be - fst (grow_block h be mb sb 0) < be - sb"
        using True by simp
      from less [OF this] True small show ?thesis
        by (subst build_sub_loop.simps) simp
    qed
  qed
qed

lemma build_subbuckets_loop_total:
  assumes "\<forall>i < length h. u32 (h ! i) \<le> ms"
    and "\<forall>i. i < length h \<and> and i dmask = dmask \<longrightarrow> h ! i \<le> mb"
  shows "\<exists>r. build_subbuckets_loop h ms mb dmask b hs = Inr r"
proof (induction "length h - b" arbitrary: b hs rule: less_induct)
  case less
  show ?case
  proof (cases "b < length h")
    case False
    then show ?thesis
      by (subst build_subbuckets_loop.simps) simp
  next
    case True
    define e where "e = fst (grow_block h (length h) ms b 0)"
    have "u32 (0 + h ! b) \<le> ms"
      using assms(1) True by simp
    from grow_block_gt [OF True this] have gt: "b < e"
      by (simp add: e_def)
    have le: "e \<le> length h"
      using grow_block_le [of h "length h" ms b 0] True by (simp add: e_def)
    have "\<forall>i. i < e \<and> and i dmask = dmask \<longrightarrow> h ! i \<le> mb"
      using assms(2) le by auto
    from build_sub_loop_total [OF this, of b hs]
    obtain hs' where hs': "build_sub_loop h mb dmask e b hs = Inr hs'"
      by blast
    have "length h - e < length h - b"
      using True gt by simp
    from less [OF this, of hs'] obtain r where "build_subbuckets_loop h ms mb dmask e hs' = Inr r"
      by blast
    with True gt hs' show ?thesis
      by (subst build_subbuckets_loop.simps) (simp add: Let_def e_def [symmetric])
  qed
qed

lemma super_block_loop_total:
  assumes "0 < mb" and "\<forall>i < length h. h ! i + mb < 2 ^ 32"
    and "\<forall>i. i < length h \<and> and i dmask = dmask \<longrightarrow> h ! i \<le> mb"
    and "\<forall>i < length h. u32 (h ! i) \<le> ms"
    and "\<forall>b e evs. snd (collect_pass bk S N ms hs b e [0 ..< n_chunks_of N] 0 evs) = None"
  shows "\<exists>new. super_block_loop bk S N h ms mb dmask hs b evs = Some (evs @ new, None)"
proof (induction "length h - b" arbitrary: b evs rule: less_induct)
  case less
  show ?case
  proof (cases "b < length h")
    case False
    then have "super_block_loop bk S N h ms mb dmask hs b evs = Some (evs @ [], None)"
      by (subst super_block_loop.simps) simp
    then show ?thesis by blast
  next
    case True
    define e where "e = fst (grow_block h (length h) ms b 0)"
    have "u32 (0 + h ! b) \<le> ms"
      using assms(4) True by simp
    from grow_block_gt [OF True this] have gt: "b < e"
      by (simp add: e_def)
    have le: "e \<le> length h"
      using grow_block_le [of h "length h" ms b 0] True by (simp add: e_def)
    obtain c where c: "collect_pass bk S N ms hs b e [0 ..< n_chunks_of N] 0 evs = (c, None)"
      using assms(5) by (metis prod.collapse)
    from collect_pass_events [of bk S N ms hs b e "[0 ..< n_chunks_of N]" 0 evs] c
    obtain n1 where n1: "c = evs @ n1"
      by auto
    have "\<forall>i < e. h ! i + mb < 2 ^ 32" and "\<forall>i. i < e \<and> and i dmask = dmask \<longrightarrow> h ! i \<le> mb"
      using assms(2,3) le by auto
    from subbucket_loop_routed [OF assms(1) this, of b c]
    obtain n2 where n2: "subbucket_loop h mb dmask e b c = Some (c @ n2, None)"
      by blast
    have "length h - e < length h - b"
      using True gt by simp
    from less [OF this, of "c @ n2"]
    obtain n3 where "super_block_loop bk S N h ms mb dmask hs e (c @ n2) = Some ((c @ n2) @ n3, None)"
      by blast
    with True c n2 n1 have "super_block_loop bk S N h ms mb dmask hs b evs = Some (evs @ (n1 @ n2 @ n3), None)"
      by (subst super_block_loop.simps) (simp add: e_def [symmetric])
    then show ?thesis by blast
  qed
qed

lemma LargeBWTStatus_init_code [simp]: "code (LargeBWTStatus_init a b) = OK"
  by (simp add: LargeBWTStatus_init_def)

lemma status_bool_iff: "status_bool s \<longleftrightarrow> code s = OK"
  by (simp add: status_bool_def)

lemma OK_neq_LargeBucket [simp]: "OK \<noteq> LargeBucket" "LargeBucket \<noteq> OK"
  by (simp_all add: OK_def LargeBucket_def)

text \<open>The first part of enact, up to the test of the status.\<close>

lemma enact_cases:
  assumes "enact K db bk S params u = Some (evs, r)"
  obtains d where "dollar_loop S (u32 (length S)) (max_block_size_of params div 4) 0 [] = Some d"
    and "\<exists>rest. evs = d @ rest \<and> dollar_free rest"
    and "(\<exists>x. r = Inl x) \<or>
         (\<exists>m st. r = Inr st \<and>
            max_subbucket_size db (histogram K bk S) (max_super_block_size_of params)
              (max_block_size_of params) (LargeBWTStatus_init (fst u) (snd u)) = Inr (m, st))"
proof -
  define N where "N = u32 (length S)"
  define st0 where "st0 = LargeBWTStatus_init (fst u) (snd u)"
  define ms where "ms = max_super_block_size_of params"
  define mb where "mb = max_block_size_of params"
  from assms obtain d where d: "dollar_loop S N (mb div 4) 0 [] = Some d"
    by (auto simp: enact_def Let_def N_def mb_def split: option.splits)
  define counted where "counted = count_pass K bk S N d"
  have H: "fst counted = histogram K bk S"
    unfolding counted_def histogram_def N_def by (rule count_pass_buckets)
  obtain c where c: "snd counted = d @ c" "dollar_free c"
    using count_pass_events [of K bk S N d] unfolding counted_def by blast
  show thesis
  proof (cases "max_subbucket_size db (fst counted) ms mb st0")
    case (Inl x)
    with assms d have "evs = snd counted" "r = Inl x"
      by (simp_all add: enact_def Let_def N_def [symmetric] mb_def [symmetric] ms_def [symmetric]
            st0_def [symmetric] counted_def [symmetric])
    with c show ?thesis
      by (intro that [OF d [unfolded N_def mb_def]]) auto
  next
    case (Inr p)
    obtain m st where p: "p = (m, st)" by (cases p)
    show ?thesis
    proof (cases "status_bool st")
      case False
      with assms d Inr p have "evs = snd counted" "r = Inr st"
        by (simp_all add: enact_def Let_def N_def [symmetric] mb_def [symmetric] ms_def [symmetric]
              st0_def [symmetric] counted_def [symmetric])
      with c Inr p H show ?thesis
        by (intro that [OF d [unfolded N_def mb_def]])
           (auto simp: ms_def mb_def st0_def)
    next
      case True
      define mb' where "mb' = (if m \<le> optimal_block_size then optimal_block_size else mb)"
      show ?thesis
      proof (cases "build_subbuckets db (fst counted) (replicate (length (fst counted)) 0) ms mb'")
        case bl: (Inl x)
        with assms d Inr p True have "evs = snd counted" "r = Inl x"
          by (simp_all add: enact_def Let_def N_def [symmetric] mb_def [symmetric] ms_def [symmetric]
                st0_def [symmetric] counted_def [symmetric] mb'_def [symmetric])
        with c show ?thesis
          by (intro that [OF d [unfolded N_def mb_def]]) auto
      next
        case br: (Inr hs)
        from assms d Inr p True br
        obtain e3 x3 where sl: "super_block_loop bk S N (fst counted) ms mb' (DOLLAR_MASK_of db) hs 0
                                  (snd counted) = Some (e3, x3)"
          and res: "evs = e3" "r = (case x3 of Some e \<Rightarrow> Inl e | None \<Rightarrow> Inr st)"
          by (auto simp: enact_def Let_def N_def [symmetric] mb_def [symmetric] ms_def [symmetric]
                st0_def [symmetric] counted_def [symmetric] mb'_def [symmetric]
              split: option.splits)
        from super_block_loop_events [OF sl] obtain n3 where "e3 = snd counted @ n3" "dollar_free n3"
          by auto
        with c res have "\<exists>rest. evs = d @ rest \<and> dollar_free rest"
          by (intro exI [of _ "c @ n3"]) simp
        moreover have "(\<exists>x. r = Inl x) \<or> (r = Inr st)"
          using res by (cases x3) auto
        ultimately show ?thesis
          using Inr p H
          by (intro that [OF d [unfolded N_def mb_def]])
             (auto simp: ms_def mb_def st0_def)
      qed
    qed
  qed
qed

lemma enact_status:
  assumes "enact K db bk S params u = Some (evs, Inr st)"
  shows "(code st = OK \<or> code st = LargeBucket) \<and>
         (code st = LargeBucket \<longleftrightarrow>
            (\<exists>i < length (histogram K bk S).
               and i (DOLLAR_MASK_of db) = DOLLAR_MASK_of db \<and>
               max_block_size_of params < histogram K bk S ! i)) \<and>
         (code st = LargeBucket \<longrightarrow>
            bucket_index st < length (histogram K bk S) \<and>
            and (bucket_index st) (DOLLAR_MASK_of db) = DOLLAR_MASK_of db \<and>
            histogram K bk S ! bucket_index st = bucket_size st \<and>
            max_block_size_of params < bucket_size st \<and>
            (\<forall>i < length (histogram K bk S).
               and i (DOLLAR_MASK_of db) = DOLLAR_MASK_of db \<longrightarrow>
               histogram K bk S ! i \<le> bucket_size st))"
proof -
  from enact_cases [OF assms] obtain m
    where ms: "max_subbucket_size db (histogram K bk S) (max_super_block_size_of params)
                 (max_block_size_of params) (LargeBWTStatus_init (fst u) (snd u)) = Inr (m, st)"
    by auto
  note r = max_subbucket_size_Inr [OF ms]
  note iff = max_subbucket_size_LargeBucket_iff [OF ms LargeBWTStatus_init_code]
  show ?thesis
  proof (cases "max_block_size_of params < m")
    case True
    with r iff show ?thesis by auto
  next
    case False
    with r have "st = LargeBWTStatus_init (fst u) (snd u)" by simp
    then have "code st = OK" by simp
    with iff show ?thesis by simp
  qed
qed

lemma enact_LargeBucket_total:
  assumes "0 < max_block_size_of params div 4"
    and "u32 (length S) + max_block_size_of params div 4 \<le> 2 ^ 32"
    and "\<forall>i < length (histogram K bk S). u32 (histogram K bk S ! i) \<le> max_super_block_size_of params"
    and "\<exists>i < length (histogram K bk S).
            and i (DOLLAR_MASK_of db) = DOLLAR_MASK_of db \<and>
            max_block_size_of params < histogram K bk S ! i"
  shows "\<exists>evs st. enact K db bk S params u = Some (evs, Inr st) \<and> code st = LargeBucket"
proof -
  define N where "N = u32 (length S)"
  define st0 where "st0 = LargeBWTStatus_init (fst u) (snd u)"
  define ms where "ms = max_super_block_size_of params"
  define mb where "mb = max_block_size_of params"
  from dollar_loop_total [OF assms(1,2), of S 0 "[]"]
  obtain d where d: "dollar_loop S N (mb div 4) 0 [] = Some d"
    unfolding N_def mb_def by auto
  define counted where "counted = count_pass K bk S N d"
  have H: "fst counted = histogram K bk S"
    unfolding counted_def histogram_def N_def by (rule count_pass_buckets)
  from max_subbucket_size_total [OF assms(3), of db "max_block_size_of params" st0]
  obtain m st where m: "max_subbucket_size db (fst counted) ms mb st0 = Inr (m, st)"
    unfolding H ms_def mb_def by blast
  have "code st0 = OK"
    by (simp add: st0_def)
  from max_subbucket_size_LargeBucket_iff [OF m this] assms(4)
  have code: "code st = LargeBucket"
    unfolding H mb_def by simp
  then have "\<not> status_bool st"
    by (simp add: status_bool_iff)
  with d m have "enact K db bk S params u = Some (snd counted, Inr st)"
    by (simp add: enact_def Let_def N_def [symmetric] mb_def [symmetric] ms_def [symmetric]
          st0_def [symmetric] counted_def [symmetric])
  with code show ?thesis by blast
qed

lemma optimal_block_size_value: "optimal_block_size = 33554432"
  by (simp add: optimal_block_size_def u32_def)

lemma enact_OK_total:
  assumes "0 < max_block_size_of params div 4"
    and "u32 (length S) + max_block_size_of params div 4 \<le> 2 ^ 32"
    and "\<forall>i < length (histogram K bk S). u32 (histogram K bk S ! i) \<le> max_super_block_size_of params"
    and "\<forall>i. i < length (histogram K bk S) \<and>
            and i (DOLLAR_MASK_of db) = DOLLAR_MASK_of db \<longrightarrow>
            histogram K bk S ! i \<le> max_block_size_of params"
    and "\<forall>i < length (histogram K bk S).
            histogram K bk S ! i + max (max_block_size_of params) optimal_block_size < 2 ^ 32"
    and "\<forall>hs b e evs. snd (collect_pass bk S (u32 (length S)) (max_super_block_size_of params)
                             hs b e [0 ..< n_chunks_of (u32 (length S))] 0 evs) = None"
  shows "\<exists>evs st. enact K db bk S params u = Some (evs, Inr st) \<and> code st = OK"
proof -
  define N where "N = u32 (length S)"
  define st0 where "st0 = LargeBWTStatus_init (fst u) (snd u)"
  define ms where "ms = max_super_block_size_of params"
  define mb where "mb = max_block_size_of params"
  define H where "H = histogram K bk S"
  define dmask where "dmask = DOLLAR_MASK_of db"
  from dollar_loop_total [OF assms(1,2), of S 0 "[]"]
  obtain d where d: "dollar_loop S N (mb div 4) 0 [] = Some d"
    unfolding N_def mb_def by auto
  define counted where "counted = count_pass K bk S N d"
  have cH: "fst counted = H"
    unfolding counted_def histogram_def N_def H_def by (rule count_pass_buckets)
  from max_subbucket_size_total [OF assms(3), of db "max_block_size_of params" st0]
  obtain m st where m: "max_subbucket_size db H ms mb st0 = Inr (m, st)"
    unfolding ms_def mb_def H_def by blast
  have c0: "code st0 = OK"
    by (simp add: st0_def)
  from max_subbucket_size_LargeBucket_iff [OF m c0] assms(4)
  have "code st \<noteq> LargeBucket"
    unfolding H_def mb_def by (metis not_less)
  moreover note r = max_subbucket_size_Inr [OF m]
  ultimately have le: "m \<le> mb" and st: "st = st0"
    by (metis not_less)+
  then have ok: "status_bool st" "code st = OK"
    using c0 by (simp_all add: status_bool_iff)
  define mb' where "mb' = (if m \<le> optimal_block_size then optimal_block_size else mb)"
  have mb'_pos: "0 < mb'" and m_le: "m \<le> mb'" and mb'_le: "mb' \<le> max mb optimal_block_size"
    using le by (auto simp: mb'_def optimal_block_size_value)
  have tracked: "\<forall>i. i < length H \<and> and i dmask = dmask \<longrightarrow> H ! i \<le> mb'"
    using r m_le unfolding dmask_def by (meson order_trans)
  have nw: "\<forall>i < length H. H ! i + mb' < 2 ^ 32"
    using assms(5) mb'_le unfolding H_def mb_def
    by (meson add_le_cancel_left le_less_trans)
  have fits: "\<forall>i < length H. u32 (H ! i) \<le> ms"
    using assms(3) unfolding H_def ms_def .
  from build_subbuckets_loop_total [OF fits tracked, of 0 "replicate (length H) 0"]
  obtain hs where hs: "build_subbuckets db H (replicate (length H) 0) ms mb' = Inr hs"
    unfolding build_subbuckets_def dmask_def by blast
  have coll: "\<forall>b e evs. snd (collect_pass bk S N ms hs b e [0 ..< n_chunks_of N] 0 evs) = None"
    using assms(6) unfolding N_def ms_def by simp
  from super_block_loop_total [OF mb'_pos nw tracked fits coll, of 0 "snd counted"]
  obtain n3 where "super_block_loop bk S N H ms mb' dmask hs 0 (snd counted)
                     = Some (snd counted @ n3, None)"
    by blast
  with d m ok hs have "enact K db bk S params u = Some (snd counted @ n3, Inr st)"
    by (simp add: enact_def Let_def N_def [symmetric] mb_def [symmetric] ms_def [symmetric]
          st0_def [symmetric] counted_def [symmetric] cH mb'_def [symmetric] dmask_def [symmetric])
  with ok show ?thesis by blast
qed

section \<open>Properties of the string-set orchestrators\<close>

lemma large_bwt_eq: "large_bwt = cuda_bwt_set"
  by (intro ext) (simp add: large_bwt_def cuda_bwt_set_def)


lemma cuda_bwt_set_ok20:
  assumes "enact 16 (DOLLAR_BITS_of wb) (bks 16) S params (u 16) = Some (e16, Inr st16)"
    and "code st16 = LargeBucket"
    and "enact 20 (DOLLAR_BITS_of wb) (bks 20) S params (u 20) = Some (e20, Inr st20)"
    and "code st20 = OK"
  shows "cuda_bwt_set bks wb S params u = Some ([16, 20], e16 @ e20, Inr ())"
  using assms by (simp add: cuda_bwt_set_def status_bool_iff)

lemma cuda_bwt_set_ok24:
  assumes "enact 16 (DOLLAR_BITS_of wb) (bks 16) S params (u 16) = Some (e16, Inr st16)"
    and "code st16 = LargeBucket"
    and "enact 20 (DOLLAR_BITS_of wb) (bks 20) S params (u 20) = Some (e20, Inr st20)"
    and "code st20 = LargeBucket"
    and "enact 24 (DOLLAR_BITS_of wb) (bks 24) S params (u 24) = Some (e24, Inr st24)"
    and "code st24 = OK"
  shows "cuda_bwt_set bks wb S params u = Some ([16, 20, 24], e16 @ e20 @ e24, Inr ())"
  using assms by (simp add: cuda_bwt_set_def status_bool_iff)


text \<open>The outcomes of the three attempts, one case for each way out of the orchestrator.\<close>

lemma cuda_bwt_set_cases:
  assumes "cuda_bwt_set bks wb S params u = Some (attempts, evs, r)"
  obtains
    (ok16) e st where "enact 16 (DOLLAR_BITS_of wb) (bks 16) S params (u 16) = Some (e, Inr st)"
      "code st = OK" "attempts = [16]" "evs = e" "r = Inr ()"
  | (exn16) e x where "enact 16 (DOLLAR_BITS_of wb) (bks 16) S params (u 16) = Some (e, Inl x)"
      "attempts = [16]" "evs = e" "r = Inl x"
  | (ok20) e16 st16 e st where
      "enact 16 (DOLLAR_BITS_of wb) (bks 16) S params (u 16) = Some (e16, Inr st16)"
      "code st16 = LargeBucket"
      "enact 20 (DOLLAR_BITS_of wb) (bks 20) S params (u 20) = Some (e, Inr st)"
      "code st = OK" "attempts = [16, 20]" "evs = e16 @ e" "r = Inr ()"
  | (exn20) e16 st16 e x where
      "enact 16 (DOLLAR_BITS_of wb) (bks 16) S params (u 16) = Some (e16, Inr st16)"
      "code st16 = LargeBucket"
      "enact 20 (DOLLAR_BITS_of wb) (bks 20) S params (u 20) = Some (e, Inl x)"
      "attempts = [16, 20]" "evs = e16 @ e" "r = Inl x"
  | (ok24) e16 st16 e20 st20 e st where
      "enact 16 (DOLLAR_BITS_of wb) (bks 16) S params (u 16) = Some (e16, Inr st16)"
      "code st16 = LargeBucket"
      "enact 20 (DOLLAR_BITS_of wb) (bks 20) S params (u 20) = Some (e20, Inr st20)"
      "code st20 = LargeBucket"
      "enact 24 (DOLLAR_BITS_of wb) (bks 24) S params (u 24) = Some (e, Inr st)"
      "code st = OK" "attempts = [16, 20, 24]" "evs = e16 @ e20 @ e" "r = Inr ()"
  | (exn24) e16 st16 e20 st20 e x where
      "enact 16 (DOLLAR_BITS_of wb) (bks 16) S params (u 16) = Some (e16, Inr st16)"
      "code st16 = LargeBucket"
      "enact 20 (DOLLAR_BITS_of wb) (bks 20) S params (u 20) = Some (e20, Inr st20)"
      "code st20 = LargeBucket"
      "enact 24 (DOLLAR_BITS_of wb) (bks 24) S params (u 24) = Some (e, Inl x)"
      "attempts = [16, 20, 24]" "evs = e16 @ e20 @ e" "r = Inl x"
  | (fail) e16 st16 e20 st20 e st where
      "enact 16 (DOLLAR_BITS_of wb) (bks 16) S params (u 16) = Some (e16, Inr st16)"
      "code st16 = LargeBucket"
      "enact 20 (DOLLAR_BITS_of wb) (bks 20) S params (u 20) = Some (e20, Inr st20)"
      "code st20 = LargeBucket"
      "enact 24 (DOLLAR_BITS_of wb) (bks 24) S params (u 24) = Some (e, Inr st)"
      "code st = LargeBucket" "attempts = [16, 20, 24]" "evs = e16 @ e20 @ e"
      "r = Inl (SubbucketOverflow (bucket_index st) (bucket_size st) (recommended_MB (bucket_size st)))"
proof -
  obtain e16 r16 where r16: "enact 16 (DOLLAR_BITS_of wb) (bks 16) S params (u 16) = Some (e16, r16)"
    using assms by (cases "enact 16 (DOLLAR_BITS_of wb) (bks 16) S params (u 16)")
      (auto simp: cuda_bwt_set_def)
  show thesis
  proof (cases r16)
    case (Inl x)
    with assms r16 show ?thesis
      by (intro exn16 [of e16 x]) (simp_all add: cuda_bwt_set_def)
  next
    case (Inr st16)
    note s16 = enact_status [OF r16 [unfolded Inr]]
    show ?thesis
    proof (cases "code st16 = OK")
      case True
      with assms r16 Inr show ?thesis
        by (intro ok16 [of e16 st16]) (simp_all add: cuda_bwt_set_def status_bool_iff)
    next
      case False
      with s16 have c16: "code st16 = LargeBucket" by simp
      obtain e20 r20 where r20: "enact 20 (DOLLAR_BITS_of wb) (bks 20) S params (u 20) = Some (e20, r20)"
        using assms r16 Inr False
        by (cases "enact 20 (DOLLAR_BITS_of wb) (bks 20) S params (u 20)")
          (auto simp: cuda_bwt_set_def status_bool_iff)
      show ?thesis
      proof (cases r20)
        case (Inl x)
        with assms r16 \<open>r16 = Inr st16\<close> False r20 c16 show ?thesis
          by (intro exn20 [of e16 st16 e20 x]) (simp_all add: cuda_bwt_set_def status_bool_iff)
      next
        case (Inr st20)
        note s20 = enact_status [OF r20 [unfolded Inr]]
        show ?thesis
        proof (cases "code st20 = OK")
          case True
          with assms r16 \<open>r16 = Inr st16\<close> False r20 Inr c16 show ?thesis
            by (intro ok20 [of e16 st16 e20 st20]) (simp_all add: cuda_bwt_set_def status_bool_iff)
        next
          case n20: False
          with s20 have c20: "code st20 = LargeBucket" by simp
          obtain e24 r24 where r24: "enact 24 (DOLLAR_BITS_of wb) (bks 24) S params (u 24) = Some (e24, r24)"
            using assms r16 \<open>r16 = Inr st16\<close> False r20 Inr n20
            by (cases "enact 24 (DOLLAR_BITS_of wb) (bks 24) S params (u 24)")
              (auto simp: cuda_bwt_set_def status_bool_iff)
          show ?thesis
          proof (cases r24)
            case (Inl x)
            with assms r16 \<open>r16 = Inr st16\<close> False r20 \<open>r20 = Inr st20\<close> n20 r24 c16 c20 show ?thesis
              by (intro exn24 [of e16 st16 e20 st20 e24 x])
                (simp_all add: cuda_bwt_set_def status_bool_iff)
          next
            case (Inr st24)
            note s24 = enact_status [OF r24 [unfolded Inr]]
            show ?thesis
            proof (cases "code st24 = OK")
              case True
              with assms r16 \<open>r16 = Inr st16\<close> False r20 \<open>r20 = Inr st20\<close> n20 r24 Inr c16 c20
              show ?thesis
                by (intro ok24 [of e16 st16 e20 st20 e24 st24])
                  (simp_all add: cuda_bwt_set_def status_bool_iff)
            next
              case n24: False
              with s24 have c24: "code st24 = LargeBucket" by simp
              with assms r16 \<open>r16 = Inr st16\<close> False r20 \<open>r20 = Inr st20\<close> n20 r24 Inr c16 c20 n24
              show ?thesis
                by (intro fail [of e16 st16 e20 st20 e24 st24])
                  (simp_all add: cuda_bwt_set_def status_bool_iff)
            qed
          qed
        qed
      qed
    qed
  qed
qed




lemma collect_pass_zero:
  assumes "\<forall>chunk b e hs. collect_n bk chunk b e hs = 0"
  shows "snd (collect_pass bk S N ms hs b e ids 0 evs) = None"
  using assms by (induction ids arbitrary: evs) (simp_all add: Let_def u32_def)




lemma n_chunks_one:
  assumes "0 < N" and "N \<le> 131072"
  shows "n_chunks_of N = 1"
proof -
  have cm: "chunk_M = 131072"
    by (simp add: chunk_M_def u32_def)
  have a: "u32 (N + 131072) = N + 131072"
    using assms by (simp add: u32_def)
  have b: "sub_u32 (N + 131072) 1 = N + 131072 - 1"
    using assms by (intro sub_u32_no_wrap) simp_all
  have c: "u32 (N + 131072 - 1) = N + 131072 - 1"
    using assms by (simp add: u32_def)
  have "n_chunks_of N = u32 (sub_u32 (u32 (N + 131072)) 1) div 131072"
    by (simp only: n_chunks_of_def cm)
  also have "\<dots> = (N + 131072 - 1) div 131072"
    by (simp only: a b c)
  also have "\<dots> = 1"
    using assms by simp
  finally show ?thesis .
qed

lemma merge_buckets_zero:
  assumes "length c = n" and "\<forall>i < n. c ! i < 2 ^ 32"
  shows "merge_buckets c (replicate n 0) = c"
  using assms by (intro nth_equalityI) (simp_all add: merge_buckets_def u32_def)

lemma nth_one_bucket:
  "j < n \<Longrightarrow> (replicate n (0::nat))[i := v] ! j = (if i = j then v else 0)"
  by (cases "i < n") (simp_all add: nth_list_update)

lemma histogram_one_bucket:
  assumes "0 < length S" and "length S \<le> 131072" and "v < 2 ^ 32"
  shows "histogram K (one_bucket K i v) S = (replicate (2 ^ K) 0)[i := v]"
proof -
  have N: "u32 (length S) = length S"
    using assms(2) by (simp add: u32_def)
  have "\<forall>j < 2 ^ K. (replicate (2 ^ K) 0)[i := v] ! j < 2 ^ 32"
    using assms(3) by (simp add: nth_one_bucket)
  then have "merge_buckets ((replicate (2 ^ K) 0)[i := v]) (replicate (2 ^ K) 0)
               = (replicate (2 ^ K) 0)[i := v]"
    by (intro merge_buckets_zero) simp_all
  then show ?thesis
    by (simp add: histogram_def count_pass_def N n_chunks_one [OF assms(1,2)] count_step_def
          one_bucket_def)
qed

lemma default_budgets:
  "max_super_block_size_of (Some BWTParams_default) = 1056964608"
  "max_block_size_of (Some BWTParams_default) = 67108864"
  by (simp_all add: max_super_block_size_of_def max_block_size_of_def BWTParams_default_def
        u32_def u64_def sub_u64_def)

lemma DOLLAR_MASK_4: "DOLLAR_MASK_of 4 = 15"
  by (simp add: DOLLAR_MASK_of_def u32_def sub_u32_def)

lemma and_15_15: "and (15::nat) 15 = 15"
  by simp

text \<open>
  One chunk of strings, default budgets, and a bucketer that finds \<open>v\<close> suffixes in the
  long-string bucket 15: the attempt fails when \<open>v\<close> exceeds the block size.
\<close>

lemma enact_one_bucket_fail:
  assumes "4 \<le> K" and "67108864 < v" and "v \<le> 1056964608"
    and "0 < length S" and "length S \<le> 131072"
  shows "\<exists>e st. enact K 4 (one_bucket K 15 v) S (Some BWTParams_default) u = Some (e, Inr st) \<and>
                code st = LargeBucket \<and> bucket_index st = 15 \<and> bucket_size st = v"
proof -
  have v: "v < 2 ^ 32"
    using assms(3) by simp
  have H: "histogram K (one_bucket K 15 v) S = (replicate (2 ^ K) 0)[15 := v]"
    using v assms by (intro histogram_one_bucket) simp_all
  have "(2::nat) ^ 4 \<le> 2 ^ K"
    using assms(1) by (intro power_increasing) simp_all
  then have len: "15 < (2::nat) ^ K"
    by simp
  have "\<exists>e st. enact K 4 (one_bucket K 15 v) S (Some BWTParams_default) u = Some (e, Inr st) \<and>
               code st = LargeBucket"
  proof (rule enact_LargeBucket_total)
    show "0 < max_block_size_of (Some BWTParams_default) div 4"
      by (simp add: default_budgets)
    show "u32 (length S) + max_block_size_of (Some BWTParams_default) div 4 \<le> 2 ^ 32"
      using assms by (simp add: default_budgets u32_def)
    show "\<forall>i < length (histogram K (one_bucket K 15 v) S).
            u32 (histogram K (one_bucket K 15 v) S ! i)
              \<le> max_super_block_size_of (Some BWTParams_default)"
      using assms(3) by (simp add: H default_budgets nth_one_bucket u32_def)
    show "\<exists>i < length (histogram K (one_bucket K 15 v) S).
            and i (DOLLAR_MASK_of 4) = DOLLAR_MASK_of 4 \<and>
            max_block_size_of (Some BWTParams_default) < histogram K (one_bucket K 15 v) S ! i"
      using assms(2) len by (intro exI [of _ 15]) (simp add: H default_budgets DOLLAR_MASK_4)
  qed
  then obtain e st where run: "enact K 4 (one_bucket K 15 v) S (Some BWTParams_default) u
                                 = Some (e, Inr st)"
    and code: "code st = LargeBucket"
    by blast
  from enact_status [OF run] code
  have "bucket_index st < 2 ^ K"
    and "((replicate (2 ^ K) 0)[15 := v]) ! bucket_index st = bucket_size st"
    and "67108864 < bucket_size st"
    by (simp_all add: H default_budgets)
  then have "bucket_index st = 15 \<and> bucket_size st = v"
    by (cases "bucket_index st = 15") (simp_all add: nth_one_bucket)
  with run code show ?thesis by blast
qed

lemma enact_one_bucket_ok:
  assumes "4 \<le> K" and "v \<le> 67108864"
    and "0 < length S" and "length S \<le> 131072"
  shows "\<exists>e st. enact K 4 (one_bucket K 15 v) S (Some BWTParams_default) u = Some (e, Inr st) \<and>
                code st = OK"
proof -
  have v: "v < 2 ^ 32"
    using assms(2) by simp
  have H: "histogram K (one_bucket K 15 v) S = (replicate (2 ^ K) 0)[15 := v]"
    using v assms by (intro histogram_one_bucket) simp_all
  show ?thesis
  proof (rule enact_OK_total)
    show "0 < max_block_size_of (Some BWTParams_default) div 4"
      by (simp add: default_budgets)
    show "u32 (length S) + max_block_size_of (Some BWTParams_default) div 4 \<le> 2 ^ 32"
      using assms by (simp add: default_budgets u32_def)
    show "\<forall>i < length (histogram K (one_bucket K 15 v) S).
            u32 (histogram K (one_bucket K 15 v) S ! i)
              \<le> max_super_block_size_of (Some BWTParams_default)"
      using assms(2) by (simp add: H default_budgets nth_one_bucket u32_def)
    show "\<forall>i. i < length (histogram K (one_bucket K 15 v) S) \<and>
            and i (DOLLAR_MASK_of 4) = DOLLAR_MASK_of 4 \<longrightarrow>
            histogram K (one_bucket K 15 v) S ! i \<le> max_block_size_of (Some BWTParams_default)"
      using assms(2) by (simp add: H default_budgets nth_one_bucket)
    show "\<forall>i < length (histogram K (one_bucket K 15 v) S).
            histogram K (one_bucket K 15 v) S ! i
              + max (max_block_size_of (Some BWTParams_default)) optimal_block_size < 2 ^ 32"
      using assms(2) by (simp add: H default_budgets nth_one_bucket optimal_block_size_value)
    show "\<forall>hs b e evs.
            snd (collect_pass (one_bucket K 15 v) S (u32 (length S))
                   (max_super_block_size_of (Some BWTParams_default)) hs b e
                   [0 ..< n_chunks_of (u32 (length S))] 0 evs) = None"
      by (intro allI collect_pass_zero) (simp add: one_bucket_def)
  qed
qed


text \<open>
  C3.  \<^verbatim>\<open>LargeBWTStatus\<close> converts to \<^verbatim>\<open>bool\<close> as true exactly when its
  code is \<open>OK\<close>.  So in \<^verbatim>\<open>large_bwt\<close> each
  \<^verbatim>\<open>if (status = enact(...)) return;\<close> returns on success: the widths tried are
  16, then 20, then 24; the 20-bit attempt is made exactly when the 16-bit attempt
  returned the large-bucket status, the 24-bit attempt exactly when the 20-bit attempt
  did too, and the function returns normally exactly when the last attempt made
  returned \<open>OK\<close>.
\<close>

theorem large_bwt_falls_through:
  assumes "large_bwt bks wb S params u = Some (attempts, evs, r)"
  shows "(\<forall>s. status_bool s \<longleftrightarrow> code s = OK) \<and>
         (attempts = [16] \<or> attempts = [16, 20] \<or> attempts = [16, 20, 24]) \<and>
         (20 \<in> set attempts \<longleftrightarrow>
            (\<exists>e st. enact 16 (DOLLAR_BITS_of wb) (bks 16) S params (u 16) = Some (e, Inr st) \<and>
                    code st = LargeBucket)) \<and>
         (24 \<in> set attempts \<longleftrightarrow>
            20 \<in> set attempts \<and>
            (\<exists>e st. enact 20 (DOLLAR_BITS_of wb) (bks 20) S params (u 20) = Some (e, Inr st) \<and>
                    code st = LargeBucket)) \<and>
         (r = Inr () \<longleftrightarrow>
            (\<exists>e st. enact (last attempts) (DOLLAR_BITS_of wb) (bks (last attempts)) S params
                      (u (last attempts)) = Some (e, Inr st) \<and> code st = OK))"
proof -
  have b: "\<forall>s. status_bool s \<longleftrightarrow> code s = OK"
    by (simp add: status_bool_iff)
  from assms have run: "cuda_bwt_set bks wb S params u = Some (attempts, evs, r)"
    by (simp add: large_bwt_eq)
  from run show ?thesis
  proof (cases rule: cuda_bwt_set_cases)
    case (ok16 e st)
    with b show ?thesis by simp
  next
    case (exn16 e x)
    with b show ?thesis by simp
  next
    case (ok20 e16 st16 e st)
    with b show ?thesis by simp
  next
    case (exn20 e16 st16 e x)
    with b show ?thesis by simp
  next
    case (ok24 e16 st16 e20 st20 e st)
    with b show ?thesis by simp
  next
    case (exn24 e16 st16 e20 st20 e x)
    with b show ?thesis by simp
  next
    case (fail e16 st16 e20 st20 e st)
    with b show ?thesis by simp
  qed
qed

theorem large_bwt_falls_through_witness:
  "\<exists>evs. large_bwt (\<lambda>K. one_bucket K 15 (if K = 16 then 134217728 else 3)) 32 [[0]]
            (Some BWTParams_default) (\<lambda>K. (0, 0)) = Some ([16, 20], evs, Inr ()) \<and>
          (\<exists>e st. enact 16 4 (one_bucket 16 15 134217728) [[0]] (Some BWTParams_default) (0, 0)
                     = Some (e, Inr st) \<and> code st = LargeBucket) \<and>
          (\<exists>e st. enact 20 4 (one_bucket 20 15 3) [[0]] (Some BWTParams_default) (0, 0)
                     = Some (e, Inr st) \<and> code st = OK)"
proof -
  define bks where "bks = (\<lambda>K. one_bucket K 15 (if K = (16::nat) then 134217728 else 3))"
  define u where "u = (\<lambda>K::nat. (0::nat, 0::nat))"
  have db: "DOLLAR_BITS_of 32 = 4"
    by (simp add: DOLLAR_BITS_of_def)
  from enact_one_bucket_fail [of 16 134217728 "[[0]]" "(0, 0)"]
  obtain e16 st16 where r16: "enact 16 (DOLLAR_BITS_of 32) (bks 16) [[0]] (Some BWTParams_default) (u 16)
                                = Some (e16, Inr st16)"
    and c16: "code st16 = LargeBucket"
    unfolding db bks_def u_def by auto
  from enact_one_bucket_ok [of 20 3 "[[0]]" "(0, 0)"]
  obtain e20 st20 where r20: "enact 20 (DOLLAR_BITS_of 32) (bks 20) [[0]] (Some BWTParams_default) (u 20)
                                = Some (e20, Inr st20)"
    and c20: "code st20 = OK"
    unfolding db bks_def u_def by auto
  have run: "large_bwt bks 32 [[0]] (Some BWTParams_default) u = Some ([16, 20], e16 @ e20, Inr ())"
    unfolding large_bwt_eq by (rule cuda_bwt_set_ok20 [OF r16 c16 r20 c20])
  from large_bwt_falls_through [OF run]
  have "(\<exists>e st. enact 16 (DOLLAR_BITS_of 32) (bks 16) [[0]] (Some BWTParams_default) (u 16)
                  = Some (e, Inr st) \<and> code st = LargeBucket)"
    and "(\<exists>e st. enact 20 (DOLLAR_BITS_of 32) (bks 20) [[0]] (Some BWTParams_default) (u 20)
                  = Some (e, Inr st) \<and> code st = OK)"
    by simp_all
  with run show ?thesis
    unfolding db bks_def u_def by auto
qed




section \<open>Properties of \<^verbatim>\<open>LargeBWTSkeleton::enact\<close>\<close>













section \<open>Properties of the memory budgets\<close>






section \<open>Lemmas on sorted suffixes\<close>

lemma sort_key_unique:
  assumes "inj_on f (set xs)" and "distinct xs" and "set ys = set xs" and "distinct ys"
    and "sorted (map f ys)"
  shows "sort_key f xs = ys"
proof (rule map_sorted_distinct_set_unique [of f])
  show "inj_on f (set (sort_key f xs) \<union> set ys)"
    using assms(1,3) by simp
  show "sorted (map f (sort_key f xs))"
    by (rule sorted_sort_key)
  show "distinct (map f (sort_key f xs))"
    using assms(1,2) by (simp add: distinct_map)
  show "sorted (map f ys)"
    by fact
  show "distinct (map f ys)"
    using assms(1,3,4) by (simp add: distinct_map)
  show "set (sort_key f xs) = set ys"
    using assms(3) by simp
qed

text \<open>The position of an element in a list sorted by distinct keys.\<close>

lemma sorted_position:
  assumes "sorted (map f ys)" and "distinct (map f ys)" and "x \<in> set ys"
  shows "length (filter (\<lambda>y. f y < f x) ys) < length ys \<and>
         ys ! length (filter (\<lambda>y. f y < f x) ys) = x"
  using assms
proof (induction ys)
  case Nil
  then show ?case by simp
next
  case (Cons y ys)
  show ?case
  proof (cases "y = x")
    case True
    have "\<forall>z \<in> set ys. f x < f z"
      using Cons.prems(1,2) True by (auto simp: less_le)
    then have "filter (\<lambda>y. f y < f x) ys = []"
      by (auto simp: filter_empty_conv)
    with True show ?thesis by simp
  next
    case False
    with Cons.prems have x: "x \<in> set ys" by simp
    with Cons.prems(1,2) have "f y < f x"
      by (auto simp: less_le)
    moreover from Cons.IH [OF _ _ x] Cons.prems(1,2)
    have "length (filter (\<lambda>y. f y < f x) ys) < length ys \<and>
          ys ! length (filter (\<lambda>y. f y < f x) ys) = x"
      by simp
    ultimately show ?thesis by simp
  qed
qed

lemma length_with_dollar [simp]: "length (with_dollar T) = length T + 1"
  by (simp add: with_dollar_def)

lemma suffix_eq:
  "p \<le> length T \<Longrightarrow> suffix T p = map Some (drop p T) @ [None]"
  by (simp add: suffix_def with_dollar_def drop_map)

lemma length_suffix: "length (suffix T p) = length T + 1 - p"
  by (simp add: suffix_def)

lemma inj_on_suffix: "inj_on (suffix T) {0 ..< length T + 1}"
proof (rule inj_onI)
  fix p q
  assume "p \<in> {0 ..< length T + 1}" "q \<in> {0 ..< length T + 1}" "suffix T p = suffix T q"
  then have "length T + 1 - p = length T + 1 - q" "p \<le> length T" "q \<le> length T"
    using length_suffix [of T p] length_suffix [of T q] by simp_all
  then show "p = q" by simp
qed

lemma suffix_last_least:
  assumes "p \<le> length T"
  shows "suffix T (length T) \<le> suffix T p"
proof -
  have "suffix T (length T) = [None]"
    by (simp add: suffix_eq)
  moreover have "[None] \<le> suffix T p"
  proof (cases "drop p T")
    case Nil
    with assms show ?thesis by (simp add: suffix_eq)
  next
    case (Cons c cs)
    with assms have "suffix T p = Some c # (map Some cs @ [None])"
      by (simp add: suffix_eq)
    then show ?thesis by (simp add: less_le_not_le [symmetric] order.strict_implies_order)
  qed
  ultimately show ?thesis by simp
qed

text \<open>The suffix array of the string with its end-marker: the empty suffix comes first.\<close>

lemma sort_all_suffixes:
  "sort_key (suffix T) [0 ..< length T + 1] = length T # sort_key (suffix T) [0 ..< length T]"
proof (rule sort_key_unique)
  show "inj_on (suffix T) (set [0 ..< length T + 1])"
    using inj_on_suffix [of T] by (simp only: set_upt)
  show "distinct [0 ..< length T + 1]"
    by simp
  show "set (length T # sort_key (suffix T) [0 ..< length T]) = set [0 ..< length T + 1]"
    by auto
  show "distinct (length T # sort_key (suffix T) [0 ..< length T])"
    by simp
  have "\<forall>p \<in> set (sort_key (suffix T) [0 ..< length T]). suffix T (length T) \<le> suffix T p"
    by (simp add: suffix_last_least)
  then show "sorted (map (suffix T) (length T # sort_key (suffix T) [0 ..< length T]))"
    by (simp add: sorted_sort_key)
qed


section \<open>Properties of the single-string suffix sorter\<close>

text \<open>
  C10.  For every string of length \<open>N\<close>, \<^verbatim>\<open>cuda::suffix_sort\<close> writes \<open>N\<close>, the
  position of the empty suffix, at output position 0, and the sorted positions of the
  \<open>N\<close> proper suffixes at output positions 1 to \<open>N\<close>; together the \<open>N + 1\<close>
  entries are the sorted positions of all the suffixes of the string with its
  end-marker, the empty suffix first.  Positions beyond \<open>N\<close> are not written.
\<close>

theorem suffix_sort_layout:
  assumes "string_len = length string"
  shows "suffix_sort string_len string out 0 = string_len \<and>
         map (suffix_sort string_len string out) [1 ..< string_len + 1]
           = sort_key (suffix string) [0 ..< string_len] \<and>
         map (suffix_sort string_len string out) [0 ..< string_len + 1]
           = sort_key (suffix string) [0 ..< string_len + 1] \<and>
         (\<forall>j. string_len < j \<longrightarrow> suffix_sort string_len string out j = out j)"
proof -
  define SA where "SA = sort_key (suffix string) [0 ..< string_len]"
  have len: "length SA = string_len"
    by (simp add: SA_def)
  have at: "suffix_sort string_len string out j
              = (if j = 0 then string_len else if j \<le> string_len then SA ! (j - 1) else out j)" for j
    using assms by (auto simp: suffix_sort_def PrefixDoublingSufSort_sort_def SA_def Let_def)
  have first: "suffix_sort string_len string out 0 = string_len"
    by (simp add: at)
  have "map (suffix_sort string_len string out) [1 ..< string_len + 1]
          = map (\<lambda>j. SA ! (j - 1)) [1 ..< string_len + 1]"
    by (rule map_cong) (auto simp: at)
  also have "\<dots> = map (\<lambda>j. SA ! j) [0 ..< string_len]"
  proof -
    have "[1 ..< string_len + 1] = map Suc [0 ..< string_len]"
      by (simp only: map_Suc_upt) simp
    then show ?thesis
      by (simp add: comp_def)
  qed
  also have "\<dots> = SA"
    using map_nth [of SA] by (simp only: len)
  finally have rest: "map (suffix_sort string_len string out) [1 ..< string_len + 1] = SA" .
  have "[0 ..< string_len + 1] = 0 # [1 ..< string_len + 1]"
    by (simp add: upt_conv_Cons)
  then have "map (suffix_sort string_len string out) [0 ..< string_len + 1] = string_len # SA"
    using first rest by simp
  also have "\<dots> = sort_key (suffix string) [0 ..< string_len + 1]"
    unfolding SA_def assms by (rule sort_all_suffixes [symmetric])
  finally have all: "map (suffix_sort string_len string out) [0 ..< string_len + 1]
                       = sort_key (suffix string) [0 ..< string_len + 1]" .
  have "\<forall>j. string_len < j \<longrightarrow> suffix_sort string_len string out j = out j"
    by (simp add: at)
  with first rest all show ?thesis
    by (simp add: SA_def)
qed

lemma example_suffixes:
  "sort_key (suffix [1, 0, 1]) [0 ..< 3 + 1] = [3, 1, 2, 0]"
proof -
  have u: "[0 ..< 3 + 1] = [0, 1, 2, 3 :: nat]"
    by code_simp
  have s: "suffix [1, 0, 1] 0 = [Some 1, Some 0, Some 1, None]"
    "suffix [1, 0, 1] 1 = [Some 0, Some 1, None]"
    "suffix [1, 0, 1] 2 = [Some 1, None]"
    "suffix [1, 0, 1] 3 = [None]"
    by (simp_all add: suffix_def with_dollar_def)
  show ?thesis
    unfolding u by (simp add: s list_le_def del: One_nat_def)
qed

theorem suffix_sort_layout_witness:
  "map (suffix_sort 3 [1, 0, 1] (\<lambda>j. 7)) [0 ..< 3 + 1] = [3, 1, 2, 0] \<and>
   suffix_sort 3 [1, 0, 1] (\<lambda>j. 7) 0 = 3 \<and>
   suffix_sort 3 [1, 0, 1] (\<lambda>j. 7) 4 = 7"
proof -
  have "(3::nat) = length [1, 0, 1 :: nat]"
    by simp
  from suffix_sort_layout [OF this, of "\<lambda>j. 7"] show ?thesis
    by (simp only: example_suffixes)
qed

end
